theory Spec2Isabelle
  imports Complex_Main "HOL-Library.Word"
begin

section \<open>The kvstore storage engine and the dmap lock protocol\<close>

text \<open>
  The development embeds two source files: \<^verbatim>\<open>internal/kvstore/kvstore.go\<close> (the
  chain of tables of a \<^verbatim>\<open>KVStore\<close>) and \<^verbatim>\<open>internal/dmap/lock.go\<close> (the advisory
  lock protocol). Go's \<^verbatim>\<open>int\<close> is modelled as \<open>int\<close>: the sizes and counters of
  the engine are byte counts of allocated memory, far below \<open>2 ^ 63\<close>, so the wrap-around of
  the 64-bit integer never comes into play. A \<^verbatim>\<open>uint64\<close> hashed key is a \<open>64 word\<close>
  and a byte is an \<open>8 word\<close>.
\<close>

subsection \<open>Errors and outcomes\<close>

type_synonym byte = "8 word"
type_synonym hkey = "64 word"

text \<open>
  The error values the two files name. \<open>storage_ErrKeyNotFound\<close> and
  \<open>storage_ErrFragmented\<close> are the values of package \<^verbatim>\<open>storage\<close>;
  \<open>errNotEnoughSpace\<close> is the table's own; \<open>ErrKeyNotFound\<close>, \<open>ErrKeyFound\<close>,
  \<open>ErrLockNotAcquired\<close> and \<open>ErrNoSuchLock\<close> are those of package \<^verbatim>\<open>dmap\<close>.
  \<open>Errorf\<close> is an error made by \<^verbatim>\<open>fmt.Errorf\<close> from a message alone, \<open>ErrorfW\<close>
  one that wraps another error with \<^verbatim>\<open>%w\<close>, and \<open>ErrOther\<close> stands for the opaque
  errors of collaborators (transport, serializer, options).
\<close>

datatype error =
    storage_ErrKeyNotFound
  | storage_ErrFragmented
  | errNotEnoughSpace
  | ErrKeyNotFound
  | ErrKeyFound
  | ErrLockNotAcquired
  | ErrNoSuchLock
  | Errorf string
  | ErrorfW string error
  | ErrOther string

text \<open>A call either panics with a message or returns.\<close>

datatype 'a outcome = Panic string | Ret 'a

subsection \<open>Tables\<close>

text \<open>
  The struct \<^verbatim>\<open>table\<close> (fields as the transport struct of \<^verbatim>\<open>kvstore.go\<close> copies
  them: \<^verbatim>\<open>hkeys map[uint64]int\<close>, \<^verbatim>\<open>memory []byte\<close>, \<^verbatim>\<open>offset\<close>,
  \<^verbatim>\<open>allocated\<close>, \<^verbatim>\<open>inuse\<close>, \<^verbatim>\<open>garbage\<close>).
\<close>

record table =
  hkeys :: "hkey \<rightharpoonup> int"
  memory :: "byte list"
  offset :: int
  allocated :: int
  inuse :: int
  garbage :: int

text \<open>
  \<^verbatim>\<open>storage.Entry\<close> is an interface declared outside the source files at hand, and the
  layout of an entry frame in a table's memory is not given either. The entry type is
  therefore a type parameter \<open>'e\<close>, and the frame layout is a parameter of the model: a
  codec with the encoder that \<^verbatim>\<open>put\<close> writes with and the decoder that \<^verbatim>\<open>get\<close>
  reads with. The decoder is handed the memory from the frame's offset on.
\<close>

record 'e codec =
  encode :: "'e \<Rightarrow> byte list"
  decode :: "byte list \<Rightarrow> 'e"

text \<open>
  A codec is self-delimiting when decoding a frame gives back the entry whatever bytes
  follow the frame ("length-prefixed and self-describing").
\<close>

definition codec_ok :: "'e codec \<Rightarrow> bool" where
  "codec_ok c \<longleftrightarrow> (\<forall>e rest. decode c (encode c e @ rest) = e)"

text \<open>The constants of \<^verbatim>\<open>kvstore.go\<close>: \<^verbatim>\<open>minimumSize = 1 << 16\<close>.\<close>

definition minimumSize :: int where
  "minimumSize = 2 ^ 16"

text \<open>
  Go's \<^verbatim>\<open>copy(dst[off:], src)\<close>: it overwrites \<open>dst\<close> from index \<open>off\<close> with as
  many bytes of \<open>src\<close> as fit, and leaves the length of \<open>dst\<close> alone.
\<close>

definition copy_at :: "byte list \<Rightarrow> nat \<Rightarrow> byte list \<Rightarrow> byte list" where
  "copy_at dst off src =
     take off dst @ take (length dst - off) src @ drop (off + length src) dst"

text \<open>
  Modelled from the spec: \<^verbatim>\<open>newTable\<close>, of the file \<^verbatim>\<open>table.go\<close> that is not among
  the sources. The engine's put "allocates a new table of size
  \<open>max(minimum, 2*engine.inuse())\<close>" and the source of \<^verbatim>\<open>Put\<close> passes
  \<^verbatim>\<open>kv.Inuse() * 2\<close>, so the lower bound \<open>minimumSize\<close> is applied here. A fresh table
  has an empty index, zeroed memory of its capacity, and all counters at zero.
\<close>

definition newTable :: "int \<Rightarrow> table" where
  "newTable sz =
     (let n = max minimumSize sz
      in \<lparr>hkeys = Map.empty, memory = replicate (nat n) 0, offset = 0,
          allocated = n, inuse = 0, garbage = 0\<rparr>)"

text \<open>
  The length of the entry frame that starts at offset \<open>off\<close>: an entry "encodes its own
  total length", which is the length of the encoding of the entry decoded there.
\<close>

definition frame_len :: "'e codec \<Rightarrow> table \<Rightarrow> int \<Rightarrow> int" where
  "frame_len c t off = int (length (encode c (decode c (drop (nat off) (memory t)))))"

text \<open>
  Modelled from the spec: \<^verbatim>\<open>table.delete\<close> (file \<^verbatim>\<open>table.go\<close>, not among the
  sources). "If present, remove index entry, increment \<open>garbage\<close> by the entry's length,
  decrement \<open>inuse\<close>; return false. If absent, return true (try older)."
\<close>

definition table_delete :: "'e codec \<Rightarrow> table \<Rightarrow> hkey \<Rightarrow> table \<times> bool" where
  "table_delete c t h =
     (case hkeys t h of
        None \<Rightarrow> (t, True)
      | Some off \<Rightarrow>
          (let n = frame_len c t off
           in (t\<lparr>hkeys := (hkeys t)(h := None), inuse := inuse t - n,
                 garbage := garbage t + n\<rparr>, False)))"

text \<open>
  Modelled from the spec: \<^verbatim>\<open>table.put\<close> (file \<^verbatim>\<open>table.go\<close>, not among the sources).
  "If \<open>offset + len(entry) > allocated\<close> fail with \<open>NotEnoughSpace\<close>. Otherwise, if
  \<open>hkey\<close> already present, look up its prior offset, add the prior entry's length to
  \<open>garbage\<close>, remove the old index entry. Append the encoded entry at \<open>offset\<close>, record
  \<open>hkeys[hkey] = offset_before_append\<close>, advance \<open>offset\<close> and \<open>inuse\<close> by the encoded
  length. Prior-entry bookkeeping: \<open>inuse -= prior_len; garbage += prior_len\<close>."
\<close>

definition table_put :: "'e codec \<Rightarrow> table \<Rightarrow> hkey \<Rightarrow> 'e \<Rightarrow> error + table" where
  "table_put c t h e =
     (let frame = encode c e; n = int (length frame)
      in if offset t + n > allocated t then Inl errNotEnoughSpace
         else
           (let t1 = fst (table_delete c t h)
            in Inr (t1\<lparr>hkeys := (hkeys t1)(h \<mapsto> offset t1),
                       memory := copy_at (memory t1) (nat (offset t1)) frame,
                       offset := offset t1 + n,
                       inuse := inuse t1 + n\<rparr>)))"

text \<open>
  Modelled from the spec: \<^verbatim>\<open>table.get\<close> (file \<^verbatim>\<open>table.go\<close>, not among the sources).
  "If present, decode and return \<open>(entry, false)\<close>. If absent, return \<open>(None, true)\<close>
  meaning: check older tables."
\<close>

definition table_get :: "'e codec \<Rightarrow> table \<Rightarrow> hkey \<Rightarrow> 'e option \<times> bool" where
  "table_get c t h =
     (case hkeys t h of
        None \<Rightarrow> (None, True)
      | Some off \<Rightarrow> (Some (decode c (drop (nat off) (memory t))), False))"

subsection \<open>The engine\<close>

text \<open>
  \<^verbatim>\<open>storage.Options\<close> holds values of any type under string keys; \<^verbatim>\<open>New\<close> asserts
  that \<^verbatim>\<open>TableSize\<close> is an \<^verbatim>\<open>int\<close>.
\<close>

datatype optval = IntV int | OtherV string

record KVStore =
  tables :: "table list"
  options :: "string \<rightharpoonup> optval"

text \<open>
  \<^verbatim>\<open>New\<close>: \<^verbatim>\<open>options.Get("TableSize")\<close> fails when the option is absent (the error
  value is made by package \<^verbatim>\<open>storage\<close>, outside the sources, and stands here as
  \<open>ErrOther\<close>); the type assertion \<^verbatim>\<open>size.(int)\<close> panics on a value of another type.
\<close>

definition New :: "(string \<rightharpoonup> optval) \<Rightarrow> (error + KVStore) outcome" where
  "New opts =
     (case opts ''TableSize'' of
        None \<Rightarrow> Ret (Inl (ErrOther ''TableSize''))
      | Some (OtherV v) \<Rightarrow> Panic ''interface conversion''
      | Some (IntV sz) \<Rightarrow> Ret (Inr \<lparr>tables = [] @ [newTable sz], options = opts\<rparr>))"

definition NumTables :: "KVStore \<Rightarrow> int" where
  "NumTables kv = int (length (tables kv))"

text \<open>\<^verbatim>\<open>Inuse\<close>: the sum of the tables' \<^verbatim>\<open>inuse\<close>, by a loop over the chain.\<close>

definition KVStore_Inuse :: "KVStore \<Rightarrow> int" where
  "KVStore_Inuse kv = fold (\<lambda>t total. total + inuse t) (tables kv) 0"

text \<open>
  \<^verbatim>\<open>Get\<close>: the loop \<^verbatim>\<open>for i := len(kv.tables) - 1; i >= 0; i--\<close>. The argument
  \<open>Suc i\<close> of \<open>Get_loop\<close> stands for the loop's index \<open>i\<close>, and \<open>0\<close> for the exit of
  the loop.
\<close>

fun Get_loop :: "'e codec \<Rightarrow> table list \<Rightarrow> hkey \<Rightarrow> nat \<Rightarrow> error + 'e option" where
  "Get_loop c ts h 0 = Inl storage_ErrKeyNotFound"
| "Get_loop c ts h (Suc i) =
     (case table_get c (ts ! i) h of
        (res, prev) \<Rightarrow> if prev then Get_loop c ts h i else Inr res)"

definition Get :: "'e codec \<Rightarrow> KVStore \<Rightarrow> hkey \<Rightarrow> (error + 'e option) outcome" where
  "Get c kv h =
     (if length (tables kv) = 0 then Panic ''tables cannot be empty''
      else Ret (Get_loop c (tables kv) h (length (tables kv))))"

text \<open>
  \<^verbatim>\<open>Put\<close>: the loop \<^verbatim>\<open>for { ... }\<close> with the local \<^verbatim>\<open>res\<close>. Nothing in the
  source bounds the number of rounds, so the loop is a partial function: \<open>None\<close> is a
  call that never returns. The newest table is \<^verbatim>\<open>kv.tables[len(kv.tables)-1]\<close>; it
  is a pointer, so the put changes the table in the chain.
\<close>

partial_function (option) Put_loop ::
  "'e codec \<Rightarrow> KVStore \<Rightarrow> error option \<Rightarrow> hkey \<Rightarrow> 'e \<Rightarrow> (KVStore \<times> error option) option"
where
  "Put_loop c kv res h e =
     (case table_put c (tables kv ! (length (tables kv) - 1)) h e of
        Inl err \<Rightarrow>
          if err = errNotEnoughSpace
          then Put_loop c (kv\<lparr>tables := tables kv @ [newTable (KVStore_Inuse kv * 2)]\<rparr>)
                 (Some storage_ErrFragmented) h e
          else Some (kv, Some err)
      | Inr t' \<Rightarrow>
          Some (kv\<lparr>tables := (tables kv)[length (tables kv) - 1 := t']\<rparr>, res))"

definition Put ::
  "'e codec \<Rightarrow> KVStore \<Rightarrow> hkey \<Rightarrow> 'e \<Rightarrow> (KVStore \<times> error option) outcome option"
where
  "Put c kv h e =
     (if length (tables kv) = 0 then Some (Panic ''tables cannot be empty'')
      else map_option Ret (Put_loop c kv None h e))"

text \<open>
  \<^verbatim>\<open>PutRaw\<close> has the same loop around \<^verbatim>\<open>table.putRaw\<close>. That function is in the
  missing \<^verbatim>\<open>table.go\<close> and the specification does not describe it, so it is a
  parameter \<open>putRaw\<close> of the model.
\<close>

partial_function (option) PutRaw_loop ::
  "(table \<Rightarrow> hkey \<Rightarrow> byte list \<Rightarrow> error + table) \<Rightarrow> KVStore \<Rightarrow> error option \<Rightarrow> hkey
   \<Rightarrow> byte list \<Rightarrow> (KVStore \<times> error option) option"
where
  "PutRaw_loop putRaw kv res h v =
     (case putRaw (tables kv ! (length (tables kv) - 1)) h v of
        Inl err \<Rightarrow>
          if err = errNotEnoughSpace
          then PutRaw_loop putRaw
                 (kv\<lparr>tables := tables kv @ [newTable (KVStore_Inuse kv * 2)]\<rparr>)
                 (Some storage_ErrFragmented) h v
          else Some (kv, Some err)
      | Inr t' \<Rightarrow>
          Some (kv\<lparr>tables := (tables kv)[length (tables kv) - 1 := t']\<rparr>, res))"

definition PutRaw ::
  "(table \<Rightarrow> hkey \<Rightarrow> byte list \<Rightarrow> error + table) \<Rightarrow> KVStore \<Rightarrow> hkey \<Rightarrow> byte list
   \<Rightarrow> (KVStore \<times> error option) outcome option"
where
  "PutRaw putRaw kv h v =
     (if length (tables kv) = 0 then Some (Panic ''tables cannot be empty'')
      else map_option Ret (PutRaw_loop putRaw kv None h v))"

text \<open>
  \<^verbatim>\<open>Delete\<close>. The first loop goes on to the older table (\<^verbatim>\<open>continue\<close>) when
  \<^verbatim>\<open>t.delete\<close> reports "previous", and leaves (\<^verbatim>\<open>break\<close>) otherwise.

  The test \<^verbatim>\<open>float64(t.allocated)*maxGarbageRatio <= float64(t.garbage)\<close> is stated in
  exact arithmetic, with \<^verbatim>\<open>maxGarbageRatio = 0.40\<close> as the rational \<open>40/100\<close>. For
  sizes below \<open>2 ^ 50\<close> the two agree: the conversions are exact, the double nearest to
  \<open>0.40\<close> exceeds it by the factor \<open>1 + 2 ^ -54\<close>, so the rounded product is the integer
  \<open>0.4 * allocated\<close> itself when that is an integer, and otherwise stays on the same side
  of every integer as the exact product, which is at least \<open>0.2\<close> away from them.
\<close>

definition maxGarbageRatio :: rat where
  "maxGarbageRatio = 40 / 100"

fun Delete_loop :: "'e codec \<Rightarrow> table list \<Rightarrow> hkey \<Rightarrow> nat \<Rightarrow> table list" where
  "Delete_loop c ts h 0 = ts"
| "Delete_loop c ts h (Suc i) =
     (case table_delete c (ts ! i) h of
        (t', prev) \<Rightarrow> if prev then Delete_loop c (ts[i := t']) h i else ts[i := t'])"

definition Delete :: "'e codec \<Rightarrow> KVStore \<Rightarrow> hkey \<Rightarrow> (KVStore \<times> error option) outcome" where
  "Delete c kv h =
     (if length (tables kv) = 0 then Panic ''tables cannot be empty''
      else
        (let kv1 = kv\<lparr>tables := Delete_loop c (tables kv) h (length (tables kv))\<rparr>
         in if length (tables kv1) \<noteq> 1 then Ret (kv1, None)
            else
              (let t = tables kv1 ! 0
               in if of_int (allocated t) * maxGarbageRatio \<le> of_int (garbage t)
                  then Ret (kv1\<lparr>tables := tables kv1 @ [newTable (KVStore_Inuse kv1 * 2)]\<rparr>,
                            Some storage_ErrFragmented)
                  else Ret (kv1, None))))"

text \<open>
  \<^verbatim>\<open>UpdateTTL\<close>, around \<^verbatim>\<open>table.updateTTL\<close>, which is a parameter \<open>updateTTL\<close> for
  the same reason as \<open>putRaw\<close>.
\<close>

fun UpdateTTL_loop ::
  "(table \<Rightarrow> hkey \<Rightarrow> 'e \<Rightarrow> table \<times> bool) \<Rightarrow> table list \<Rightarrow> hkey \<Rightarrow> 'e \<Rightarrow> nat
   \<Rightarrow> table list \<times> error option"
where
  "UpdateTTL_loop updateTTL ts h d 0 = (ts, Some storage_ErrKeyNotFound)"
| "UpdateTTL_loop updateTTL ts h d (Suc i) =
     (case updateTTL (ts ! i) h d of
        (t', prev) \<Rightarrow>
          if prev then UpdateTTL_loop updateTTL (ts[i := t']) h d i else (ts[i := t'], None))"

definition UpdateTTL ::
  "(table \<Rightarrow> hkey \<Rightarrow> 'e \<Rightarrow> table \<times> bool) \<Rightarrow> KVStore \<Rightarrow> hkey \<Rightarrow> 'e
   \<Rightarrow> (KVStore \<times> error option) outcome"
where
  "UpdateTTL updateTTL kv h d =
     (if length (tables kv) = 0 then Panic ''tables cannot be empty''
      else
        (case UpdateTTL_loop updateTTL (tables kv) h d (length (tables kv)) of
           (ts, r) \<Rightarrow> Ret (kv\<lparr>tables := ts\<rparr>, r)))"

text \<open>\<^verbatim>\<open>Check\<close>: the key's presence in the index of some table.\<close>

fun Check_loop :: "table list \<Rightarrow> hkey \<Rightarrow> nat \<Rightarrow> bool" where
  "Check_loop ts h 0 = False"
| "Check_loop ts h (Suc i) =
     (case hkeys (ts ! i) h of Some off \<Rightarrow> True | None \<Rightarrow> Check_loop ts h i)"

definition Check :: "KVStore \<Rightarrow> hkey \<Rightarrow> bool outcome" where
  "Check kv h =
     (if length (tables kv) = 0 then Panic ''tables cannot be empty''
      else Ret (Check_loop (tables kv) h (length (tables kv))))"

text \<open>\<^verbatim>\<open>Fork\<close> makes a new engine from the options of this one.\<close>

definition Fork :: "KVStore \<Rightarrow> (error + KVStore) outcome" where
  "Fork kv = New (options kv)"

text \<open>
  \<^verbatim>\<open>Len\<close> and \<^verbatim>\<open>Stats\<close>. \<^verbatim>\<open>len(t.hkeys)\<close> is the number of keys of the index;
  \<^verbatim>\<open>stats[k] += v\<close> reads the zero value for a missing key.
\<close>

definition Len :: "KVStore \<Rightarrow> int" where
  "Len kv = fold (\<lambda>t total. total + int (card (dom (hkeys t)))) (tables kv) 0"

definition add_to :: "(string \<rightharpoonup> int) \<Rightarrow> string \<Rightarrow> int \<Rightarrow> (string \<rightharpoonup> int)" where
  "add_to m k v = m(k \<mapsto> (case m k of None \<Rightarrow> 0 | Some x \<Rightarrow> x) + v)"

definition Stats :: "KVStore \<Rightarrow> (string \<rightharpoonup> int)" where
  "Stats kv =
     fold (\<lambda>t stats.
             add_to (add_to (add_to stats ''allocated'' (allocated t)) ''inuse'' (inuse t))
               ''garbage'' (garbage t))
       (tables kv)
       [''allocated'' \<mapsto> 0, ''inuse'' \<mapsto> 0, ''garbage'' \<mapsto> 0]"

text \<open>
  \<^verbatim>\<open>Export\<close> and \<^verbatim>\<open>Import\<close>. The struct \<^verbatim>\<open>transport\<close> is what travels. The
  msgpack library is not part of the repository: its pair of functions is a parameter,
  over any type \<open>'w\<close> of wire data. \<^verbatim>\<open>Marshal\<close> is taken to return no error, since the
  fields of \<^verbatim>\<open>transport\<close> (a map of integers, bytes, integers) all have an encoding.

  \<^verbatim>\<open>make([]byte, t.offset+1)\<close> panics on a negative length and the slice
  \<^verbatim>\<open>t.memory[:t.offset]\<close> panics when \<^verbatim>\<open>offset\<close> is negative or beyond the capacity of
  the memory, which is its length (\<^verbatim>\<open>newTable\<close> makes it with \<^verbatim>\<open>make([]byte, size)\<close>).
\<close>

record transport =
  HKeys :: "hkey \<rightharpoonup> int"
  Memory :: "byte list"
  Offset :: int
  Allocated :: int
  Inuse :: int
  Garbage :: int

record 'w msgpack =
  Marshal :: "transport \<Rightarrow> 'w"
  Unmarshal :: "'w \<Rightarrow> error + transport"

definition Export :: "'w msgpack \<Rightarrow> KVStore \<Rightarrow> (error + 'w) outcome" where
  "Export mp kv =
     (if length (tables kv) \<noteq> 1 then Ret (Inl storage_ErrFragmented)
      else
        (let t = tables kv ! 0
         in if offset t + 1 < 0 then Panic ''makeslice: len out of range''
            else if offset t < 0 \<or> int (length (memory t)) < offset t
            then Panic ''slice bounds out of range''
            else
              Ret (Inr (Marshal mp
                \<lparr>HKeys = hkeys t,
                 Memory = copy_at (replicate (nat (offset t + 1)) 0) 0
                            (take (nat (offset t)) (memory t)),
                 Offset = offset t, Allocated = allocated t, Inuse = inuse t,
                 Garbage = garbage t\<rparr>))))"

definition Import :: "'w msgpack \<Rightarrow> KVStore \<Rightarrow> 'w \<Rightarrow> (error + KVStore) outcome" where
  "Import mp kv data =
     (case Unmarshal mp data of
        Inl err \<Rightarrow> Ret (Inl err)
      | Inr tr \<Rightarrow>
          (case New ((options kv)(''TableSize'' \<mapsto> IntV (Allocated tr))) of
             Panic m \<Rightarrow> Panic m
           | Ret (Inl err) \<Rightarrow> Ret (Inl err)
           | Ret (Inr fresh) \<Rightarrow>
               (let t = tables fresh ! 0
                in Ret (Inr (fresh\<lparr>tables := (tables fresh)
                     [0 := t\<lparr>hkeys := HKeys tr, offset := Offset tr, inuse := Inuse tr,
                             garbage := Garbage tr,
                             memory := copy_at (memory t) 0 (Memory tr)\<rparr>]\<rparr>)))))"

subsection \<open>Well-formed tables\<close>

text \<open>
  The invariants of a table: "\<open>inuse + garbage == offset \<le> allocated\<close>; every offset in
  \<open>hkeys\<close> points to the start of a valid entry frame". A frame at \<open>off\<close> is valid when
  the bytes from \<open>off\<close> on start with the encoding of the entry decoded there and that
  encoding ends at or before \<open>offset\<close>. The memory has the length \<open>allocated\<close>, which
  is at least \<open>minimumSize\<close> for a table made by \<open>newTable\<close>. An engine is well formed
  when its chain is not empty and all its tables are.
\<close>

definition frame_at :: "'e codec \<Rightarrow> table \<Rightarrow> int \<Rightarrow> bool" where
  "frame_at c t off \<longleftrightarrow>
     0 \<le> off \<and> off + frame_len c t off \<le> offset t \<and>
     take (nat (frame_len c t off)) (drop (nat off) (memory t))
       = encode c (decode c (drop (nat off) (memory t)))"

definition table_wf :: "'e codec \<Rightarrow> table \<Rightarrow> bool" where
  "table_wf c t \<longleftrightarrow>
     minimumSize \<le> allocated t \<and> int (length (memory t)) = allocated t \<and>
     0 \<le> offset t \<and> offset t \<le> allocated t \<and> inuse t + garbage t = offset t \<and>
     (\<forall>h off. hkeys t h = Some off \<longrightarrow> frame_at c t off)"

definition kv_wf :: "'e codec \<Rightarrow> KVStore \<Rightarrow> bool" where
  "kv_wf c kv \<longleftrightarrow> tables kv \<noteq> [] \<and> (\<forall>t \<in> set (tables kv). table_wf c t)"

text \<open>
  The calls of \<open>Put\<close> that never return: the entry fits neither the newest table nor a
  new table of the size the engine allocates.
\<close>

definition stuck :: "'e codec \<Rightarrow> KVStore \<Rightarrow> 'e \<Rightarrow> bool" where
  "stuck c kv e \<longleftrightarrow>
     (let t = tables kv ! (length (tables kv) - 1); n = int (length (encode c e))
      in allocated t < offset t + n \<and> max minimumSize (KVStore_Inuse kv * 2) < n)"

subsection \<open>A codec to run the model with\<close>

text \<open>
  A small self-delimiting codec over byte strings, for the concrete runs of the model:
  every payload byte follows the marker \<open>1\<close>, and the marker \<open>0\<close> ends the frame.
  \<open>demo_table h p\<close> is a table of the minimum capacity that holds the one entry \<open>p\<close>
  under the key \<open>h\<close>.
\<close>

fun demo_decode :: "byte list \<Rightarrow> byte list" where
  "demo_decode (m # b # rest) = (if m = 0 then [] else b # demo_decode rest)"
| "demo_decode _ = []"

definition demo_encode :: "byte list \<Rightarrow> byte list" where
  "demo_encode p = concat (map (\<lambda>b. [1, b]) p) @ [0]"

definition demo_codec :: "(byte list) codec" where
  "demo_codec = \<lparr>encode = demo_encode, decode = demo_decode\<rparr>"

definition demo_table :: "hkey \<Rightarrow> byte list \<Rightarrow> table" where
  "demo_table h p =
     \<lparr>hkeys = [h \<mapsto> 0],
      memory = demo_encode p @ replicate (65536 - length (demo_encode p)) 0,
      offset = int (length (demo_encode p)), allocated = 65536,
      inuse = int (length (demo_encode p)), garbage = 0\<rparr>"

text \<open>
  A stand-in for the msgpack library in the concrete runs: the wire data is the transport
  value itself.
\<close>

definition demo_msgpack :: "transport msgpack" where
  "demo_msgpack = \<lparr>Marshal = (\<lambda>tr. tr), Unmarshal = Inr\<rparr>"

subsection \<open>Reachable engines\<close>

text \<open>
  The engines that come from \<^verbatim>\<open>New\<close> (also through \<^verbatim>\<open>Fork\<close> and \<^verbatim>\<open>Import\<close>,
  which make a new engine) by the operations that assign to \<^verbatim>\<open>kv.tables\<close> or change a
  table: \<^verbatim>\<open>Put\<close>, \<^verbatim>\<open>PutRaw\<close>, \<^verbatim>\<open>Delete\<close>, \<^verbatim>\<open>UpdateTTL\<close>. The remaining
  operations only read the engine.
\<close>

inductive reachable ::
  "'e codec \<Rightarrow> (table \<Rightarrow> hkey \<Rightarrow> byte list \<Rightarrow> error + table)
   \<Rightarrow> (table \<Rightarrow> hkey \<Rightarrow> 'e \<Rightarrow> table \<times> bool) \<Rightarrow> 'w msgpack \<Rightarrow> KVStore \<Rightarrow> bool"
  for c :: "'e codec"
    and putRaw :: "table \<Rightarrow> hkey \<Rightarrow> byte list \<Rightarrow> error + table"
    and updateTTL :: "table \<Rightarrow> hkey \<Rightarrow> 'e \<Rightarrow> table \<times> bool"
    and mp :: "'w msgpack"
where
  reach_New: "New opts = Ret (Inr kv) \<Longrightarrow> reachable c putRaw updateTTL mp kv"
| reach_Fork:
    "reachable c putRaw updateTTL mp kv \<Longrightarrow> Fork kv = Ret (Inr kv') \<Longrightarrow>
     reachable c putRaw updateTTL mp kv'"
| reach_Import:
    "reachable c putRaw updateTTL mp kv \<Longrightarrow> Import mp kv data = Ret (Inr kv') \<Longrightarrow>
     reachable c putRaw updateTTL mp kv'"
| reach_Put:
    "reachable c putRaw updateTTL mp kv \<Longrightarrow> Put c kv h e = Some (Ret (kv', r)) \<Longrightarrow>
     reachable c putRaw updateTTL mp kv'"
| reach_PutRaw:
    "reachable c putRaw updateTTL mp kv \<Longrightarrow> PutRaw putRaw kv h v = Some (Ret (kv', r)) \<Longrightarrow>
     reachable c putRaw updateTTL mp kv'"
| reach_Delete:
    "reachable c putRaw updateTTL mp kv \<Longrightarrow> Delete c kv h = Ret (kv', r) \<Longrightarrow>
     reachable c putRaw updateTTL mp kv'"
| reach_UpdateTTL:
    "reachable c putRaw updateTTL mp kv \<Longrightarrow> UpdateTTL updateTTL kv h d = Ret (kv', r) \<Longrightarrow>
     reachable c putRaw updateTTL mp kv'"

subsection \<open>The lock protocol\<close>

text \<open>
  \<^verbatim>\<open>lock.go\<close> calls into the rest of package \<^verbatim>\<open>dmap\<close>, which is not among the
  sources: \<^verbatim>\<open>dm.get\<close>, \<^verbatim>\<open>dm.unmarshalValue\<close>, \<^verbatim>\<open>dm.deleteKey\<close>, \<^verbatim>\<open>dm.put\<close> and the
  serializer. A \<open>DMap\<close> value carries them as functions over an abstract state \<open>'s\<close> of
  the map (the functions that may change the map return the new state), together with the
  field \<^verbatim>\<open>name\<close>. \<open>'en\<close> is the type of a stored entry and \<open>entryValue\<close> its method
  \<^verbatim>\<open>Value()\<close>.

  \<^verbatim>\<open>unmarshalValue\<close> returns an \<^verbatim>\<open>interface{}\<close>; \<open>goval\<close> tells a byte slice from
  a value of any other type, on which the assertion \<^verbatim>\<open>val.([]byte)\<close> panics.

  The keyed mutex \<^verbatim>\<open>dm.s.locker\<close> serialises concurrent calls and the error of its
  release is only logged; the model is of one call at a time and leaves it out.
\<close>

datatype goval = ByteSlice "byte list" | OtherValue string

datatype OpCode = OpPutIf | OpPutIfEx | OpUnlock

datatype condition = IfNotFound | IfFound

text \<open>
  The struct \<^verbatim>\<open>env\<close> of \<^verbatim>\<open>env.go\<close>, with the fields a lock uses (\<^verbatim>\<open>dmap\<close>,
  \<^verbatim>\<open>key\<close>, \<^verbatim>\<open>value\<close>, \<^verbatim>\<open>timestamp\<close>, \<^verbatim>\<open>timeout\<close>) and the condition of the put
  that \<^verbatim>\<open>lockKey\<close> passes as \<^verbatim>\<open>IfNotFound\<close>. A \<^verbatim>\<open>time.Duration\<close> is a number of
  nanoseconds.
\<close>

record env =
  env_dmap :: string
  env_key :: string
  env_value :: "byte list"
  env_timestamp :: int
  env_timeout :: int
  env_flags :: condition

record ('s, 'en) DMap =
  name :: string
  get :: "'s \<Rightarrow> string \<Rightarrow> 's \<times> (error + 'en)"
  entryValue :: "'en \<Rightarrow> byte list"
  unmarshalValue :: "byte list \<Rightarrow> error + goval"
  deleteKey :: "'s \<Rightarrow> string \<Rightarrow> 's \<times> error option"
  serialize :: "byte list \<Rightarrow> error + byte list"
  put :: "'s \<Rightarrow> env \<Rightarrow> 's \<times> error option"

record ('s, 'en) LockContext =
  lc_name :: string
  lc_key :: string
  lc_token :: "byte list"
  lc_dm :: "('s, 'en) DMap"

text \<open>\<^verbatim>\<open>unlockKey\<close>, on the state \<open>s\<close> of the map; it returns the state it leaves.\<close>

definition unlockKey ::
  "('s, 'en) DMap \<Rightarrow> 's \<Rightarrow> string \<Rightarrow> byte list \<Rightarrow> ('s \<times> error option) outcome"
where
  "unlockKey dm s key token =
     (case get dm s key of
        (s1, Inl err) \<Rightarrow>
          if err = ErrKeyNotFound then Ret (s1, Some ErrNoSuchLock) else Ret (s1, Some err)
      | (s1, Inr entry) \<Rightarrow>
          (case unmarshalValue dm (entryValue dm entry) of
             Inl err \<Rightarrow> Ret (s1, Some err)
           | Inr (OtherValue v) \<Rightarrow> Panic ''interface conversion''
           | Inr (ByteSlice val) \<Rightarrow>
               if val \<noteq> token then Ret (s1, Some ErrNoSuchLock)
               else
                 (case deleteKey dm s1 key of
                    (s2, Some err) \<Rightarrow>
                      Ret (s2, Some (ErrorfW ''unlock failed because of delete'' err))
                  | (s2, None) \<Rightarrow> Ret (s2, None))))"

text \<open>
  Modelled from the spec: the sentinel \<^verbatim>\<open>nilTimeout\<close>, declared in a file of package
  \<^verbatim>\<open>dmap\<close> that is not among the sources. "A zero TTL means no expiry (denoted
  \<open>nilTimeout\<close>)."
\<close>

definition nilTimeout :: int where
  "nilTimeout = 0"

text \<open>
  Modelled from the spec: \<^verbatim>\<open>prepareAndSerialize\<close>, of a file of package \<^verbatim>\<open>dmap\<close>
  that is not among the sources. "Build an env: \<open>(dmap, key, value=token, ttl,
  condition=IfNotFound)\<close>." The env of the specification, like the struct of \<^verbatim>\<open>env.go\<close>,
  has no field for the opcode, which is therefore not used; the value is the serialized
  token and the timestamp the time \<open>now\<close> of the call.
\<close>

definition prepareAndSerialize ::
  "('s, 'en) DMap \<Rightarrow> int \<Rightarrow> OpCode \<Rightarrow> string \<Rightarrow> byte list \<Rightarrow> int \<Rightarrow> condition \<Rightarrow> error + env"
where
  "prepareAndSerialize dm now opcode key val timeout flags =
     (case serialize dm val of
        Inl err \<Rightarrow> Inl err
      | Inr v \<Rightarrow>
          Inr \<lparr>env_dmap = name dm, env_key = key, env_value = v, env_timestamp = now,
               env_timeout = timeout, env_flags = flags\<rparr>)"

text \<open>
  \<^verbatim>\<open>tryLock\<close>. The \<^verbatim>\<open>select\<close> of the retry loop waits for the 10 ms timer, the
  deadline and the shutdown of the server. Which of them comes when is not a matter of the
  program text: the model takes the sequence of what the \<^verbatim>\<open>select\<close> receives as an
  input, a finite list that depends on the deadline. \<open>None\<close> is a call still waiting
  when the list is used up.
\<close>

datatype event = TimerFired | DeadlineExceeded | ServerDone

fun tryLock_loop ::
  "('s, 'en) DMap \<Rightarrow> env \<Rightarrow> event list \<Rightarrow> 's \<Rightarrow> ('s \<times> error option) option"
where
  "tryLock_loop dm e [] s = None"
| "tryLock_loop dm e (TimerFired # evs) s =
     (case put dm s e of
        (s', Some err) \<Rightarrow>
          if err = ErrKeyFound then tryLock_loop dm e evs s' else Some (s', Some err)
      | (s', None) \<Rightarrow> Some (s', None))"
| "tryLock_loop dm e (DeadlineExceeded # evs) s = Some (s, Some ErrLockNotAcquired)"
| "tryLock_loop dm e (ServerDone # evs) s = Some (s, Some (Errorf ''server is gone''))"

definition tryLock ::
  "('s, 'en) DMap \<Rightarrow> (int \<Rightarrow> event list) \<Rightarrow> 's \<Rightarrow> env \<Rightarrow> int \<Rightarrow> ('s \<times> error option) option"
where
  "tryLock dm sched s e deadline =
     (case put dm s e of
        (s', None) \<Rightarrow> Some (s', None)
      | (s', Some err) \<Rightarrow>
          if err \<noteq> ErrKeyFound then Some (s', Some err)
          else tryLock_loop dm e (sched deadline) s')"

text \<open>
  \<^verbatim>\<open>lockKey\<close>. \<open>rnd\<close> is what \<^verbatim>\<open>rand.Read\<close> does with the 16-byte buffer
  \<^verbatim>\<open>token\<close>: an error, or the bytes it writes over the buffer.
\<close>

definition lockKey ::
  "('s, 'en) DMap \<Rightarrow> error + byte list \<Rightarrow> int \<Rightarrow> (int \<Rightarrow> event list) \<Rightarrow> 's
   \<Rightarrow> OpCode \<Rightarrow> string \<Rightarrow> int \<Rightarrow> int \<Rightarrow> ('s \<times> (error + ('s, 'en) LockContext)) option"
where
  "lockKey dm rnd now sched s opcode key timeout deadline =
     (case rnd of
        Inl err \<Rightarrow> Some (s, Inl err)
      | Inr bs \<Rightarrow>
          (let token = copy_at (replicate 16 0) 0 bs
           in case prepareAndSerialize dm now opcode key token timeout IfNotFound of
                Inl err \<Rightarrow> Some (s, Inl err)
              | Inr e \<Rightarrow>
                  (case tryLock dm sched s e deadline of
                     None \<Rightarrow> None
                   | Some (s', Some err) \<Rightarrow> Some (s', Inl err)
                   | Some (s', None) \<Rightarrow>
                       Some (s', Inr \<lparr>lc_name = name dm, lc_key = key, lc_token = token,
                                      lc_dm = dm\<rparr>))))"

definition LockWithTimeout ::
  "('s, 'en) DMap \<Rightarrow> error + byte list \<Rightarrow> int \<Rightarrow> (int \<Rightarrow> event list) \<Rightarrow> 's
   \<Rightarrow> string \<Rightarrow> int \<Rightarrow> int \<Rightarrow> ('s \<times> (error + ('s, 'en) LockContext)) option"
where
  "LockWithTimeout dm rnd now sched s key timeout deadline =
     lockKey dm rnd now sched s OpPutIfEx key timeout deadline"

definition Lock ::
  "('s, 'en) DMap \<Rightarrow> error + byte list \<Rightarrow> int \<Rightarrow> (int \<Rightarrow> event list) \<Rightarrow> 's
   \<Rightarrow> string \<Rightarrow> int \<Rightarrow> ('s \<times> (error + ('s, 'en) LockContext)) option"
where
  "Lock dm rnd now sched s key deadline =
     lockKey dm rnd now sched s OpPutIf key nilTimeout deadline"

text \<open>
  A map to run the lock protocol on: the state maps a key to its stored bytes, values are
  stored as they are, and \<^verbatim>\<open>put\<close> honours the condition \<open>IfNotFound\<close>.
\<close>

definition demo_dmap :: "(string \<rightharpoonup> byte list, byte list) DMap" where
  "demo_dmap =
     \<lparr>name = ''locks'',
      get = (\<lambda>s k. (s, case s k of None \<Rightarrow> Inl ErrKeyNotFound | Some v \<Rightarrow> Inr v)),
      entryValue = (\<lambda>v. v),
      unmarshalValue = (\<lambda>v. Inr (ByteSlice v)),
      deleteKey = (\<lambda>s k. (s(k := None), None)),
      serialize = Inr,
      put = (\<lambda>s e. if env_flags e = IfNotFound \<and> s (env_key e) \<noteq> None
                     then (s, Some ErrKeyFound)
                     else (s(env_key e \<mapsto> env_value e), None))\<rparr>"

section \<open>Properties\<close>

subsection \<open>Tables and frames\<close>

lemma length_copy_at: "off \<le> length dst \<Longrightarrow> length (copy_at dst off src) = length dst"
  by (auto simp: copy_at_def)

lemma take_copy_at: "k \<le> off \<Longrightarrow> take k (copy_at dst off src) = take k dst"
  by (auto simp: copy_at_def)

lemma drop_copy_at:
  "off + length src \<le> length dst \<Longrightarrow> drop off (copy_at dst off src) = src @ drop (off + length src) dst"
  by (auto simp: copy_at_def)

lemma fold_inuse: "fold (\<lambda>t total. total + inuse t) ts a = a + sum_list (map inuse ts)"
  by (induction ts arbitrary: a) auto

lemma KVStore_Inuse_sum: "KVStore_Inuse kv = sum_list (map inuse (tables kv))"
  by (simp add: KVStore_Inuse_def fold_inuse)

lemma take_drop_agree:
  assumes "take k xs = take k ys" and "a + n \<le> k"
  shows "take n (drop a xs) = take n (drop a ys)"
proof -
  have "take (a + n) (take k xs) = take (a + n) (take k ys)"
    by (simp only: assms(1))
  then have "take (a + n) xs = take (a + n) ys"
    using assms(2) by (simp add: min_def)
  then have "drop a (take (a + n) xs) = drop a (take (a + n) ys)"
    by simp
  then show ?thesis
    by (simp add: drop_take)
qed

lemma frame_stable:
  assumes ok: "codec_ok c" and fr: "frame_at c t off"
    and pre: "take (nat (offset t)) mem' = take (nat (offset t)) (memory t)"
    and le: "offset t \<le> off'"
  shows "decode c (drop (nat off) mem') = decode c (drop (nat off) (memory t))"
    and "frame_at c (t\<lparr>memory := mem', offset := off'\<rparr>) off"
proof -
  define e where "e = decode c (drop (nat off) (memory t))"
  define n where "n = length (encode c e)"
  have fl: "frame_len c t off = int n"
    by (simp add: frame_len_def e_def n_def)
  from fr have off0: "0 \<le> off" and bound: "off + int n \<le> offset t"
    and tk: "take n (drop (nat off) (memory t)) = encode c e"
    by (simp_all add: frame_at_def fl e_def)
  have "nat off + n \<le> nat (offset t)"
    using off0 bound by linarith
  with pre have "take n (drop (nat off) mem') = take n (drop (nat off) (memory t))"
    by (rule take_drop_agree)
  with tk have "drop (nat off) mem' = encode c e @ drop n (drop (nat off) mem')"
    by (metis append_take_drop_id)
  with ok have dec: "decode c (drop (nat off) mem') = e"
    unfolding codec_ok_def by metis
  then show "decode c (drop (nat off) mem') = decode c (drop (nat off) (memory t))"
    by (simp add: e_def)
  have "frame_len c (t\<lparr>memory := mem', offset := off'\<rparr>) off = int n"
    using dec by (simp add: frame_len_def n_def)
  moreover have "take n (drop (nat off) mem') = encode c e"
    using \<open>take n (drop (nat off) mem') = take n (drop (nat off) (memory t))\<close> tk by simp
  ultimately show "frame_at c (t\<lparr>memory := mem', offset := off'\<rparr>) off"
    using off0 bound le dec by (simp add: frame_at_def)
qed

lemma newTable_simps [simp]:
  "hkeys (newTable n) = Map.empty" "offset (newTable n) = 0" "inuse (newTable n) = 0"
  "garbage (newTable n) = 0" "allocated (newTable n) = max minimumSize n"
  "memory (newTable n) = replicate (nat (max minimumSize n)) 0"
  by (simp_all add: newTable_def Let_def)

lemma table_wf_newTable: "table_wf c (newTable n)"
  by (simp add: table_wf_def minimumSize_def)

lemma table_put_error: "table_put c t h e = Inl err \<Longrightarrow> err = errNotEnoughSpace"
  by (auto simp: table_put_def Let_def split: if_splits)

lemma table_put_Inl_iff:
  "table_put c t h e = Inl errNotEnoughSpace \<longleftrightarrow> allocated t < offset t + int (length (encode c e))"
  by (auto simp: table_put_def Let_def)

lemma table_delete_absent: "hkeys t h = None \<Longrightarrow> table_delete c t h = (t, True)"
  by (simp add: table_delete_def)

lemma table_delete_fields [simp]:
  "hkeys (fst (table_delete c t h)) = (hkeys t)(h := None)"
  "memory (fst (table_delete c t h)) = memory t"
  "offset (fst (table_delete c t h)) = offset t"
  "allocated (fst (table_delete c t h)) = allocated t"
  by (auto simp: table_delete_def Let_def split: option.splits)

lemma table_delete_prev: "snd (table_delete c t h) \<longleftrightarrow> hkeys t h = None"
  by (simp add: table_delete_def Let_def split: option.splits)

lemma table_delete_counters:
  "inuse (fst (table_delete c t h)) + garbage (fst (table_delete c t h)) = inuse t + garbage t"
  by (simp add: table_delete_def Let_def split: option.splits)

lemma frame_at_cong:
  "memory t' = memory t \<Longrightarrow> offset t' = offset t \<Longrightarrow> frame_at c t' off = frame_at c t off"
  by (simp add: frame_at_def frame_len_def)

lemma table_wf_delete: "table_wf c t \<Longrightarrow> table_wf c (fst (table_delete c t h))"
  unfolding table_wf_def
  by (auto simp: table_delete_counters frame_at_cong [of "fst (table_delete c t h)" t] split: if_splits)

lemma table_get_prev: "snd (table_get c t h) \<longleftrightarrow> hkeys t h = None"
  by (simp add: table_get_def split: option.splits)

lemma table_put_get:
  assumes ok: "codec_ok c" and put: "table_put c t h e = Inr t'"
    and wf: "0 \<le> offset t" "int (length (memory t)) = allocated t"
  shows "table_get c t' h = (Some e, False)"
proof -
  let ?fr = "encode c e"
  from put have fits: "offset t + int (length ?fr) \<le> allocated t"
    and t': "t' = (fst (table_delete c t h))\<lparr>hkeys := (hkeys t)(h \<mapsto> offset t),
        memory := copy_at (memory t) (nat (offset t)) ?fr,
        offset := offset t + int (length ?fr),
        inuse := inuse (fst (table_delete c t h)) + int (length ?fr)\<rparr>"
    by (auto simp: table_put_def Let_def split: if_splits)
  have "nat (offset t) + length ?fr \<le> length (memory t)"
    using fits wf by linarith
  then have "drop (nat (offset t)) (copy_at (memory t) (nat (offset t)) ?fr)
      = ?fr @ drop (nat (offset t) + length ?fr) (memory t)"
    by (rule drop_copy_at)
  with ok show ?thesis
    by (simp add: t' table_get_def codec_ok_def)
qed

lemma table_wf_put:
  assumes ok: "codec_ok c" and wf: "table_wf c t" and put: "table_put c t h e = Inr t'"
  shows "table_wf c t'"
proof -
  let ?fr = "encode c e"
  let ?d = "fst (table_delete c t h)"
  let ?mem = "copy_at (memory t) (nat (offset t)) ?fr"
  from put have fits: "offset t + int (length ?fr) \<le> allocated t"
    and t': "t' = ?d\<lparr>hkeys := (hkeys t)(h \<mapsto> offset t), memory := ?mem,
        offset := offset t + int (length ?fr), inuse := inuse ?d + int (length ?fr)\<rparr>"
    by (auto simp: table_put_def Let_def split: if_splits)
  from wf have o0: "0 \<le> offset t" and len: "int (length (memory t)) = allocated t"
    and cnt: "inuse t + garbage t = offset t" and ms: "minimumSize \<le> allocated t"
    and frames: "\<And>k off. hkeys t k = Some off \<Longrightarrow> frame_at c t off"
    by (auto simp: table_wf_def)
  have room: "nat (offset t) + length ?fr \<le> length (memory t)"
    using fits o0 len by linarith
  have pre: "take (nat (offset t)) ?mem = take (nat (offset t)) (memory t)"
    by (simp add: take_copy_at)
  have dr: "drop (nat (offset t)) ?mem = ?fr @ drop (nat (offset t) + length ?fr) (memory t)"
    using room by (rule drop_copy_at)
  have dec: "decode c (drop (nat (offset t)) ?mem) = e"
    using ok by (simp add: dr codec_ok_def)
  have new: "frame_at c t' (offset t)"
    using o0 dec by (simp add: frame_at_def frame_len_def t') (simp add: dr)
  have old: "frame_at c t' off" if "hkeys t k = Some off" for k off
  proof -
    have "frame_at c (t\<lparr>memory := ?mem, offset := offset t + int (length ?fr)\<rparr>) off"
      using ok frames [OF that] pre by (rule frame_stable(2)) simp
    then show ?thesis
      by (simp add: frame_at_def frame_len_def t')
  qed
  have "frame_at c t' off" if "hkeys t' k = Some off" for k off
    using that new old by (auto simp: t' split: if_splits)
  moreover have "inuse t' + garbage t' = offset t'"
    using cnt table_delete_counters [of c t h] by (simp add: t')
  moreover have "int (length (memory t')) = allocated t'"
    using room len by (simp add: t' length_copy_at)
  ultimately show ?thesis
    using ms o0 fits unfolding table_wf_def by (simp add: t')
qed

lemma Put_loop_fits:
  "table_put c (tables kv ! (length (tables kv) - 1)) h e = Inr t' \<Longrightarrow>
   Put_loop c kv res h e
     = Some (kv\<lparr>tables := (tables kv)[length (tables kv) - 1 := t']\<rparr>, res)"
  by (subst Put_loop.simps) simp

lemma Put_loop_retry:
  "table_put c (tables kv ! (length (tables kv) - 1)) h e = Inl errNotEnoughSpace \<Longrightarrow>
   Put_loop c kv res h e
     = Put_loop c (kv\<lparr>tables := tables kv @ [newTable (KVStore_Inuse kv * 2)]\<rparr>)
         (Some storage_ErrFragmented) h e"
  by (subst Put_loop.simps) simp

lemma KVStore_Inuse_append_newTable [simp]:
  "KVStore_Inuse (kv\<lparr>tables := tables kv @ [newTable n]\<rparr>) = KVStore_Inuse kv"
  by (simp add: KVStore_Inuse_sum)

lemma Put_loop_spill:
  assumes "table_put c (tables kv ! (length (tables kv) - 1)) h e = Inl errNotEnoughSpace"
    and "table_put c (newTable (KVStore_Inuse kv * 2)) h e = Inr t'"
  shows "Put_loop c kv res h e
     = Some (kv\<lparr>tables := tables kv @ [t']\<rparr>, Some storage_ErrFragmented)"
  using assms by (simp add: Put_loop_retry Put_loop_fits)

lemma Put_loop_Some_not_stuck:
  assumes "Put_loop c kv res h e = Some y"
  shows "\<not> stuck c kv e"
proof (rule Put_loop.raw_induct [where P = "\<lambda>c kv res h e y. \<not> stuck c kv e", OF _ assms])
  fix f :: "'a codec \<Rightarrow> KVStore \<Rightarrow> error option \<Rightarrow> hkey \<Rightarrow> 'a \<Rightarrow> (KVStore \<times> error option) option"
    and c kv res h e y
  assume IH: "\<And>c kv res h e y. f c kv res h e = Some y \<Longrightarrow> \<not> stuck c kv e"
    and body: "(case table_put c (tables kv ! (length (tables kv) - 1)) h e of
        Inl err \<Rightarrow>
          if err = errNotEnoughSpace
          then f c (kv\<lparr>tables := tables kv @ [newTable (KVStore_Inuse kv * 2)]\<rparr>)
                 (Some storage_ErrFragmented) h e
          else Some (kv, Some err)
      | Inr t' \<Rightarrow>
          Some (kv\<lparr>tables := (tables kv)[length (tables kv) - 1 := t']\<rparr>, res)) = Some y"
  show "\<not> stuck c kv e"
  proof (cases "table_put c (tables kv ! (length (tables kv) - 1)) h e")
    case (Inr t')
    then show ?thesis
      by (auto simp: stuck_def Let_def table_put_def split: if_splits)
  next
    case (Inl err)
    then have err: "err = errNotEnoughSpace" by (rule table_put_error)
    with body Inl
    have "f c (kv\<lparr>tables := tables kv @ [newTable (KVStore_Inuse kv * 2)]\<rparr>)
           (Some storage_ErrFragmented) h e = Some y"
      by simp
    then have "\<not> stuck c (kv\<lparr>tables := tables kv @ [newTable (KVStore_Inuse kv * 2)]\<rparr>) e"
      by (rule IH)
    then show ?thesis
      by (auto simp: stuck_def Let_def)
  qed
qed

lemma Put_loop_diverges: "stuck c kv e \<Longrightarrow> Put_loop c kv res h e = None"
  using Put_loop_Some_not_stuck [of c kv res h e] by (cases "Put_loop c kv res h e") auto

subsection \<open>Get scans the chain from the newest table\<close>

lemma Get_loop_find:
  "i \<le> length ts \<Longrightarrow>
   Get_loop c ts h i =
     (case find (\<lambda>t. \<not> snd (table_get c t h)) (rev (take i ts)) of
        None \<Rightarrow> Inl storage_ErrKeyNotFound
      | Some t \<Rightarrow> Inr (fst (table_get c t h)))"
proof (induction i)
  case 0
  then show ?case by simp
next
  case (Suc i)
  then have "take (Suc i) ts = take i ts @ [ts ! i]"
    by (simp add: take_Suc_conv_app_nth)
  with Suc show ?case
    by (simp split: prod.splits)
qed


subsection \<open>The demo codec\<close>

lemma demo_decode_encode: "demo_decode (demo_encode p @ rest) = p"
proof (induction p)
  case Nil
  show ?case by (cases rest) (simp_all add: demo_encode_def)
next
  case (Cons b p)
  then show ?case by (simp add: demo_encode_def)
qed

lemma demo_codec_ok: "codec_ok demo_codec"
  by (simp add: codec_ok_def demo_codec_def demo_decode_encode)

lemma Get_loop_newest:
  "j < i \<Longrightarrow> \<not> snd (table_get c (ts ! j) h) \<Longrightarrow>
   (\<forall>k. j < k \<and> k < i \<longrightarrow> snd (table_get c (ts ! k) h)) \<Longrightarrow>
   Get_loop c ts h i = Inr (fst (table_get c (ts ! j) h))"
proof (induction i)
  case 0
  then show ?case by simp
next
  case (Suc i)
  show ?case
  proof (cases "j = i")
    case True
    with Suc.prems show ?thesis by (cases "table_get c (ts ! i) h") auto
  next
    case False
    with Suc.prems have "j < i" and "snd (table_get c (ts ! i) h)" by auto
    with Suc show ?thesis by (cases "table_get c (ts ! i) h") auto
  qed
qed

lemma Get_loop_none:
  "(\<forall>k < i. snd (table_get c (ts ! k) h)) \<Longrightarrow> Get_loop c ts h i = Inl storage_ErrKeyNotFound"
  by (induction i) (auto split: prod.splits)

text \<open>
  Claim C5. On a chain that is not empty, \<open>Get\<close> scans the tables from the newest (the
  last) to the oldest (the first) and returns the entry of the first table that does not
  report "previous": the result is that of the first such table in the reversed chain.
  Hence the newest table that holds the key decides, whatever older tables hold under the
  same key, and when every table reports "previous" the result is
  \<open>storage_ErrKeyNotFound\<close>.
\<close>

theorem Get_scans_newest_first:
  assumes "tables kv \<noteq> []"
  shows "Get c kv h =
      Ret (case find (\<lambda>t. \<not> snd (table_get c t h)) (rev (tables kv)) of
             None \<Rightarrow> Inl storage_ErrKeyNotFound
           | Some t \<Rightarrow> Inr (fst (table_get c t h)))
    \<and> (\<forall>j. j < length (tables kv) \<and> \<not> snd (table_get c (tables kv ! j) h) \<and>
            (\<forall>k. j < k \<and> k < length (tables kv) \<longrightarrow> snd (table_get c (tables kv ! k) h))
          \<longrightarrow> Get c kv h = Ret (Inr (fst (table_get c (tables kv ! j) h))))
    \<and> ((\<forall>t \<in> set (tables kv). snd (table_get c t h))
          \<longrightarrow> Get c kv h = Ret (Inl storage_ErrKeyNotFound))"
proof (intro conjI allI impI)
  show "Get c kv h =
      Ret (case find (\<lambda>t. \<not> snd (table_get c t h)) (rev (tables kv)) of
             None \<Rightarrow> Inl storage_ErrKeyNotFound
           | Some t \<Rightarrow> Inr (fst (table_get c t h)))"
    using assms by (simp add: Get_def Get_loop_find)
next
  fix j
  assume "j < length (tables kv) \<and> \<not> snd (table_get c (tables kv ! j) h) \<and>
    (\<forall>k. j < k \<and> k < length (tables kv) \<longrightarrow> snd (table_get c (tables kv ! k) h))"
  then have "Get_loop c (tables kv) h (length (tables kv))
      = Inr (fst (table_get c (tables kv ! j) h))"
    by (intro Get_loop_newest) auto
  with assms show "Get c kv h = Ret (Inr (fst (table_get c (tables kv ! j) h)))"
    by (simp add: Get_def)
next
  assume "\<forall>t \<in> set (tables kv). snd (table_get c t h)"
  then have "Get_loop c (tables kv) h (length (tables kv)) = Inl storage_ErrKeyNotFound"
    by (intro Get_loop_none) simp
  with assms show "Get c kv h = Ret (Inl storage_ErrKeyNotFound)"
    by (simp add: Get_def)
qed

lemma demo_table_get:
  "table_get demo_codec (demo_table k p) h = (if h = k then (Some p, False) else (None, True))"
  by (simp add: table_get_def demo_table_def demo_codec_def demo_decode_encode)

theorem Get_scans_newest_first_witness:
  "tables \<lparr>tables = [demo_table 1 [7], demo_table 1 [9]], options = Map.empty\<rparr> \<noteq> []
   \<and> Get demo_codec \<lparr>tables = [demo_table 1 [7], demo_table 1 [9]], options = Map.empty\<rparr> 1
       = Ret (Inr (Some [9]))
   \<and> Get demo_codec \<lparr>tables = [demo_table 1 [7], demo_table 1 [9]], options = Map.empty\<rparr> 2
       = Ret (Inl storage_ErrKeyNotFound)"
proof -
  let ?kv = "\<lparr>tables = [demo_table 1 [7], demo_table 1 [9]], options = Map.empty\<rparr>"
  have ne: "tables ?kv \<noteq> []" by simp
  have newer: "Suc 0 < length (tables ?kv) \<and> \<not> snd (table_get demo_codec (tables ?kv ! Suc 0) 1) \<and>
      (\<forall>k. Suc 0 < k \<and> k < length (tables ?kv) \<longrightarrow> snd (table_get demo_codec (tables ?kv ! k) 1))"
    by (simp add: demo_table_get)
  have absent: "\<forall>t \<in> set (tables ?kv). snd (table_get demo_codec t 2)"
    by (simp add: demo_table_get)
  from Get_scans_newest_first [OF ne, of demo_codec 1] newer
  have "Get demo_codec ?kv 1 = Ret (Inr (fst (table_get demo_codec (tables ?kv ! Suc 0) 1)))"
    by blast
  moreover from Get_scans_newest_first [OF ne, of demo_codec 2] absent
  have "Get demo_codec ?kv 2 = Ret (Inl storage_ErrKeyNotFound)"
    by blast
  ultimately show ?thesis by (simp add: demo_table_get)
qed



subsection \<open>Delete stops at the newest table that holds the key\<close>

lemma table_put_Inr_ex:
  "offset t + int (length (encode c e)) \<le> allocated t \<Longrightarrow> \<exists>t'. table_put c t h e = Inr t'"
  by (simp add: table_put_def Let_def)

lemma table_put_fields:
  assumes "table_put c t h e = Inr t'"
  shows "hkeys t' = (hkeys t)(h \<mapsto> offset t)"
    and "offset t' = offset t + int (length (encode c e))"
    and "allocated t' = allocated t"
    and "inuse t' = inuse (fst (table_delete c t h)) + int (length (encode c e))"
    and "garbage t' = garbage (fst (table_delete c t h))"
  using assms by (auto simp: table_put_def Let_def split: if_splits)

lemma Delete_loop_length [simp]: "length (Delete_loop c ts h i) = length ts"
  by (induction i arbitrary: ts) (auto split: prod.splits)

lemma Delete_loop_newest_only:
  "j < i \<Longrightarrow> i \<le> length ts \<Longrightarrow> hkeys (ts ! j) h \<noteq> None \<Longrightarrow>
   (\<forall>k. j < k \<and> k < i \<longrightarrow> hkeys (ts ! k) h = None) \<Longrightarrow>
   Delete_loop c ts h i = ts[j := fst (table_delete c (ts ! j) h)]"
proof (induction i arbitrary: ts)
  case 0
  then show ?case by simp
next
  case (Suc i)
  show ?case
  proof (cases "j = i")
    case True
    with Suc.prems have "\<not> snd (table_delete c (ts ! i) h)"
      by (simp add: table_delete_prev)
    with True show ?thesis
      by (cases "table_delete c (ts ! i) h") simp
  next
    case False
    with Suc.prems have ji: "j < i" and none: "hkeys (ts ! i) h = None" by auto
    then have del: "table_delete c (ts ! i) h = (ts ! i, True)"
      by (simp add: table_delete_absent)
    have "Delete_loop c ts h i = ts[j := fst (table_delete c (ts ! j) h)]"
      using Suc.prems ji by (intro Suc.IH) auto
    with del show ?thesis by simp
  qed
qed

lemma Delete_loop_absent:
  "(\<forall>k < i. hkeys (ts ! k) h = None) \<Longrightarrow> Delete_loop c ts h i = ts"
  by (induction i arbitrary: ts) (auto simp: table_delete_absent)

lemma length_demo_encode: "length (demo_encode p) = 2 * length p + 1"
  by (induction p) (simp_all add: demo_encode_def)

text \<open>
  Claim C1 says that after \<open>Delete h\<close> a \<open>Get h\<close> returns \<open>storage_ErrKeyNotFound\<close> even
  when several tables held \<open>h\<close>. The loop of \<^verbatim>\<open>Delete\<close> leaves at the first table that
  holds the key (\<open>Delete_loop_newest_only\<close>), so an older copy stays. The run below starts
  from \<open>New\<close> with the default table size of 65536 bytes: the first put stores an entry
  with a frame of 40001 bytes under the key \<open>1\<close>; the second put, of another entry of
  that size under the same key, does not fit the first table and goes to a new one of
  80002 bytes; \<open>Delete\<close> then removes the key from the new table only, and \<open>Get\<close>
  returns the entry of the first put.
\<close>

theorem Delete_leaves_older_copy:
  "\<exists>kv0 kv1 kv2 kv3.
     New [''TableSize'' \<mapsto> IntV 65536] = Ret (Inr kv0) \<and>
     Put demo_codec kv0 1 (replicate 20000 7) = Some (Ret (kv1, None)) \<and>
     Put demo_codec kv1 1 (replicate 20000 9) = Some (Ret (kv2, Some storage_ErrFragmented)) \<and>
     Delete demo_codec kv2 1 = Ret (kv3, None) \<and>
     Get demo_codec kv3 1 = Ret (Inr (Some (replicate 20000 7)))"
proof -
  let ?c = demo_codec
  let ?opts = "[''TableSize'' \<mapsto> IntV 65536]"
  let ?old = "replicate 20000 (7 :: byte)"
  let ?new = "replicate 20000 (9 :: byte)"
  define kv0 where "kv0 = \<lparr>tables = [newTable 65536], options = ?opts\<rparr>"
  have new: "New ?opts = Ret (Inr kv0)"
    by (simp add: New_def kv0_def)
  have len7: "int (length (encode ?c ?old)) = 40001"
    and len9: "int (length (encode ?c ?new)) = 40001"
    by (simp_all add: demo_codec_def length_demo_encode)
  obtain t0 where t0: "table_put ?c (newTable 65536) 1 ?old = Inr t0"
    using table_put_Inr_ex [of "newTable 65536" ?c ?old 1]
    by (auto simp: len7 minimumSize_def)
  define kv1 where "kv1 = kv0\<lparr>tables := [t0]\<rparr>"
  have put1: "Put ?c kv0 1 ?old = Some (Ret (kv1, None))"
    using t0 by (simp add: Put_def Put_loop_fits kv0_def kv1_def)
  have t0f: "offset t0 = 40001" "allocated t0 = 65536" "hkeys t0 1 = Some 0" "inuse t0 = 40001"
    using table_put_fields [OF t0]
    by (simp_all add: len7 minimumSize_def table_delete_absent)
  have get0: "table_get ?c t0 1 = (Some ?old, False)"
    using demo_codec_ok t0 by (rule table_put_get) (simp_all add: minimumSize_def)
  have full: "table_put ?c t0 1 ?new = Inl errNotEnoughSpace"
    by (simp add: table_put_Inl_iff t0f len9)
  have inuse1: "KVStore_Inuse kv1 = 40001"
    by (simp add: KVStore_Inuse_sum kv1_def t0f)
  obtain t1 where t1: "table_put ?c (newTable 80002) 1 ?new = Inr t1"
    using table_put_Inr_ex [of "newTable 80002" ?c ?new 1]
    by (auto simp: len9 minimumSize_def)
  define kv2 where "kv2 = kv1\<lparr>tables := [t0, t1]\<rparr>"
  have last1: "tables kv1 ! (length (tables kv1) - Suc 0) = t0"
    by (simp add: kv1_def)
  have "Put_loop ?c kv1 None 1 ?new
      = Some (kv1\<lparr>tables := tables kv1 @ [t1]\<rparr>, Some storage_ErrFragmented)"
    by (rule Put_loop_spill) (simp_all add: last1 full inuse1 t1)
  then have put2: "Put ?c kv1 1 ?new = Some (Ret (kv2, Some storage_ErrFragmented))"
    by (simp add: Put_def kv1_def kv2_def)
  have t1f: "hkeys t1 1 = Some 0"
    using table_put_fields(1) [OF t1] by simp
  define kv3 where "kv3 = kv2\<lparr>tables := [t0, fst (table_delete ?c t1 1)]\<rparr>"
  have "Delete_loop ?c [t0, t1] 1 (Suc (Suc 0))
      = [t0, t1][Suc 0 := fst (table_delete ?c ([t0, t1] ! Suc 0) 1)]"
    by (rule Delete_loop_newest_only) (simp_all add: t1f)
  then have del: "Delete ?c kv2 1 = Ret (kv3, None)"
    by (simp add: Delete_def kv2_def kv3_def)
  have "table_get ?c (fst (table_delete ?c t1 1)) 1 = (None, True)"
    by (simp add: table_get_def)
  with get0 have get: "Get ?c kv3 1 = Ret (Inr (Some ?old))"
    by (simp add: Get_def kv3_def numeral_2_eq_2)
  from new put1 put2 del get show ?thesis by blast
qed

subsection \<open>The fragmentation signal of Delete, and Export\<close>

lemma ratio_test:
  "0 < allocated t \<Longrightarrow>
   (of_int (allocated t) * maxGarbageRatio \<le> (of_int (garbage t) :: rat))
     \<longleftrightarrow> maxGarbageRatio \<le> of_int (garbage t) / of_int (allocated t)"
  by (simp add: pos_le_divide_eq mult.commute)

text \<open>
  Claim C7. Let \<open>ts\<close> be the chain after the deletion pass of \<open>Delete\<close>, every table of
  which has a positive capacity. The pass keeps the length of the chain. If \<open>ts\<close> has
  exactly one table and the ratio of its \<open>garbage\<close> to its \<open>allocated\<close> is at least
  \<open>0.40\<close>, then \<open>Delete\<close> appends a new table, made by \<open>newTable\<close> from twice the
  engine's \<open>inuse\<close> and empty, and returns \<open>storage_ErrFragmented\<close>. In every other case it
  returns no error and the chain is \<open>ts\<close>.
\<close>

theorem Delete_fragmentation_signal:
  assumes "tables kv \<noteq> []"
    and "ts = Delete_loop c (tables kv) h (length (tables kv))"
    and "\<forall>t \<in> set ts. 0 < allocated t"
  shows "length ts = length (tables kv)
    \<and> (length ts = 1 \<and> (40 / 100 :: rat) \<le> of_int (garbage (ts ! 0)) / of_int (allocated (ts ! 0))
          \<longrightarrow> Delete c kv h
                = Ret (kv\<lparr>tables := ts @ [newTable (2 * sum_list (map inuse ts))]\<rparr>,
                       Some storage_ErrFragmented)
              \<and> hkeys (newTable (2 * sum_list (map inuse ts))) = Map.empty)
    \<and> (\<not> (length ts = 1 \<and> (40 / 100 :: rat) \<le> of_int (garbage (ts ! 0)) / of_int (allocated (ts ! 0)))
          \<longrightarrow> Delete c kv h = Ret (kv\<lparr>tables := ts\<rparr>, None))"
proof -
  define A where "A \<longleftrightarrow> of_int (allocated (ts ! 0)) * maxGarbageRatio \<le> (of_int (garbage (ts ! 0)) :: rat)"
  define B where "B \<longleftrightarrow> (40 / 100 :: rat) \<le> of_int (garbage (ts ! 0)) / of_int (allocated (ts ! 0))"
  have len: "length ts = length (tables kv)"
    by (simp add: assms(2))
  have AB: "A = B" if "length ts = 1"
  proof -
    from that have "ts ! 0 \<in> set ts" by (simp add: nth_mem del: One_nat_def)
    with assms(3) have "0 < allocated (ts ! 0)" by blast
    then show ?thesis
      unfolding A_def B_def using ratio_test [of "ts ! 0"]
      by (simp only: maxGarbageRatio_def)
  qed
  have D: "Delete c kv h =
      (if length ts \<noteq> 1 then Ret (kv\<lparr>tables := ts\<rparr>, None)
       else if A then Ret (kv\<lparr>tables := ts @ [newTable (2 * sum_list (map inuse ts))]\<rparr>,
                           Some storage_ErrFragmented)
       else Ret (kv\<lparr>tables := ts\<rparr>, None))"
    using assms(1) unfolding A_def assms(2)
    by (simp add: Delete_def Let_def KVStore_Inuse_sum mult.commute del: Delete_loop.simps)
  show ?thesis
    unfolding B_def [symmetric] using D AB len by (cases "length ts = 1") auto
qed



lemma demo_frame_len: "frame_len demo_codec (demo_table k p) 0 = 2 * int (length p) + 1"
  by (simp add: frame_len_def demo_table_def demo_codec_def demo_decode_encode length_demo_encode)

lemma demo_table_fields:
  "hkeys (demo_table k p) = [k \<mapsto> 0]" "inuse (demo_table k p) = 2 * int (length p) + 1"
  "garbage (demo_table k p) = 0" "allocated (demo_table k p) = 65536"
  "offset (demo_table k p) = 2 * int (length p) + 1"
  by (simp_all add: demo_table_def length_demo_encode)

lemma demo_table_delete:
  "table_delete demo_codec (demo_table k p) k
     = ((demo_table k p)\<lparr>hkeys := Map.empty, inuse := 0, garbage := 2 * int (length p) + 1\<rparr>, False)"
  by (simp add: table_delete_def Let_def demo_frame_len demo_table_fields)

theorem Delete_fragmentation_signal_witness:
  "Delete demo_codec \<lparr>tables = [demo_table 1 (replicate 20000 7)], options = Map.empty\<rparr> 1
     = Ret (\<lparr>tables = [(demo_table 1 (replicate 20000 7))
                          \<lparr>hkeys := Map.empty, inuse := 0, garbage := 40001\<rparr>,
                        newTable 0],
              options = Map.empty\<rparr>, Some storage_ErrFragmented)"
proof -
  let ?t = "demo_table 1 (replicate 20000 7)"
  let ?t' = "?t\<lparr>hkeys := Map.empty, inuse := 0, garbage := 40001\<rparr>"
  let ?kv = "\<lparr>tables = [?t], options = Map.empty\<rparr>"
  have ne: "tables ?kv \<noteq> []" by simp
  have ts: "[?t'] = Delete_loop demo_codec (tables ?kv) 1 (length (tables ?kv))"
    by (simp add: demo_table_delete)
  have pos: "\<forall>t \<in> set [?t']. 0 < allocated t"
    by (simp add: demo_table_def)
  have ratio: "length [?t'] = 1 \<and>
      (40 / 100 :: rat) \<le> of_int (garbage ([?t'] ! 0)) / of_int (allocated ([?t'] ! 0))"
    by (simp add: demo_table_def)
  from Delete_fragmentation_signal [OF ne ts pos] ratio
  have "Delete demo_codec ?kv 1
      = Ret (?kv\<lparr>tables := [?t'] @ [newTable (2 * sum_list (map inuse [?t']))]\<rparr>,
             Some storage_ErrFragmented)"
    by blast
  then show ?thesis by simp
qed

lemma copy_prefix:
  "n \<le> length mem \<Longrightarrow> copy_at (replicate (Suc n) 0) 0 (take n mem) = take n mem @ [0]"
  by (simp add: copy_at_def min_def del: replicate.simps) simp

text \<open>
  Claim C8. \<open>Export\<close> fails with \<open>storage_ErrFragmented\<close> exactly when the chain does not
  have exactly one table. With exactly one table, whose \<open>offset\<close> lies within its memory,
  \<open>Export\<close> succeeds and marshals the table's \<open>hkeys\<close>, the first \<open>offset\<close> bytes of its
  memory (followed by one zero byte), and its \<open>offset\<close>, \<open>allocated\<close>, \<open>inuse\<close> and
  \<open>garbage\<close>.
\<close>

theorem Export_only_single_table:
  "(Export mp kv = Ret (Inl storage_ErrFragmented) \<longleftrightarrow> length (tables kv) \<noteq> 1) \<and>
   (\<forall>t. tables kv = [t] \<and> 0 \<le> offset t \<and> offset t \<le> int (length (memory t)) \<longrightarrow>
      Export mp kv
        = Ret (Inr (Marshal mp
            \<lparr>HKeys = hkeys t, Memory = take (nat (offset t)) (memory t) @ [0],
             Offset = offset t, Allocated = allocated t, Inuse = inuse t,
             Garbage = garbage t\<rparr>)))"
proof (intro conjI allI impI)
  show "Export mp kv = Ret (Inl storage_ErrFragmented) \<longleftrightarrow> length (tables kv) \<noteq> 1"
    by (simp add: Export_def Let_def)
next
  fix t
  assume a: "tables kv = [t] \<and> 0 \<le> offset t \<and> offset t \<le> int (length (memory t))"
  then have "nat (offset t) \<le> length (memory t)" by linarith
  then have "copy_at (replicate (Suc (nat (offset t))) 0) 0 (take (nat (offset t)) (memory t))
      = take (nat (offset t)) (memory t) @ [0]"
    by (rule copy_prefix)
  moreover have "nat (offset t + 1) = Suc (nat (offset t))"
    using a by linarith
  ultimately show "Export mp kv
        = Ret (Inr (Marshal mp
            \<lparr>HKeys = hkeys t, Memory = take (nat (offset t)) (memory t) @ [0],
             Offset = offset t, Allocated = allocated t, Inuse = inuse t,
             Garbage = garbage t\<rparr>))"
    using a by (simp add: Export_def Let_def)
qed

theorem Export_only_single_table_witness:
  "Export demo_msgpack \<lparr>tables = [demo_table 1 [7]], options = Map.empty\<rparr>
     = Ret (Inr \<lparr>HKeys = [1 \<mapsto> 0], Memory = [1, 7, 0, 0], Offset = 3, Allocated = 65536,
                 Inuse = 3, Garbage = 0\<rparr>)
   \<and> Export demo_msgpack \<lparr>tables = [demo_table 1 [7], demo_table 2 [9]], options = Map.empty\<rparr>
     = Ret (Inl storage_ErrFragmented)"
proof -
  let ?t = "demo_table 1 [7]"
  let ?kv = "\<lparr>tables = [?t], options = Map.empty\<rparr>"
  have one: "tables ?kv = [?t] \<and> 0 \<le> offset ?t \<and> offset ?t \<le> int (length (memory ?t))"
    by (simp add: demo_table_def demo_encode_def)
  have two: "length (tables \<lparr>tables = [demo_table 1 [7], demo_table 2 [9]], options = Map.empty\<rparr>) \<noteq> 1"
    by simp
  from Export_only_single_table [of demo_msgpack ?kv] one
  have "Export demo_msgpack ?kv
      = Ret (Inr (Marshal demo_msgpack
            \<lparr>HKeys = hkeys ?t, Memory = take (nat (offset ?t)) (memory ?t) @ [0],
             Offset = offset ?t, Allocated = allocated ?t, Inuse = inuse ?t,
             Garbage = garbage ?t\<rparr>))"
    by blast
  moreover from Export_only_single_table
    [of demo_msgpack "\<lparr>tables = [demo_table 1 [7], demo_table 2 [9]], options = Map.empty\<rparr>"] two
  have "Export demo_msgpack \<lparr>tables = [demo_table 1 [7], demo_table 2 [9]], options = Map.empty\<rparr>
      = Ret (Inl storage_ErrFragmented)"
    by blast
  ultimately show ?thesis
    by (simp add: demo_msgpack_def demo_table_def demo_encode_def)
qed

subsection \<open>Put: allocation on overflow and the Fragmented signal\<close>

lemma Put_cases:
  assumes ne: "tables kv \<noteq> []" and ret: "Put c kv h e = Some (Ret (kv', r))"
  defines "t \<equiv> tables kv ! (length (tables kv) - 1)"
  shows "(\<exists>t'. table_put c t h e = Inr t' \<and> r = None \<and>
            kv' = kv\<lparr>tables := (tables kv)[length (tables kv) - 1 := t']\<rparr>)
       \<or> (\<exists>t'. table_put c t h e = Inl errNotEnoughSpace \<and>
            table_put c (newTable (2 * KVStore_Inuse kv)) h e = Inr t' \<and>
            r = Some storage_ErrFragmented \<and> kv' = kv\<lparr>tables := tables kv @ [t']\<rparr>)"
proof -
  from ne ret have loop: "Put_loop c kv None h e = Some (kv', r)"
    by (auto simp: Put_def)
  show ?thesis
  proof (cases "table_put c t h e")
    case (Inr t')
    then show ?thesis
      using loop by (simp add: Put_loop_fits t_def)
  next
    case (Inl err)
    then have full: "table_put c t h e = Inl errNotEnoughSpace"
      using table_put_error [OF Inl] by simp
    show ?thesis
    proof (cases "table_put c (newTable (2 * KVStore_Inuse kv)) h e")
      case (Inr t')
      have "Put_loop c kv None h e
          = Some (kv\<lparr>tables := tables kv @ [t']\<rparr>, Some storage_ErrFragmented)"
        by (rule Put_loop_spill) (use full Inr in \<open>simp_all add: t_def mult.commute\<close>)
      with loop full Inr show ?thesis by auto
    next
      case (Inl err')
      then have "table_put c (newTable (2 * KVStore_Inuse kv)) h e = Inl errNotEnoughSpace"
        using table_put_error [OF Inl] by simp
      with full have "stuck c kv e"
        by (simp add: stuck_def Let_def table_put_Inl_iff t_def mult.commute)
      then have "Put_loop c kv None h e = None"
        by (rule Put_loop_diverges)
      with loop show ?thesis by simp
    qed
  qed
qed

lemma Put_returns:
  assumes "tables kv \<noteq> []"
    and "int (length (encode c e)) \<le> max minimumSize (2 * KVStore_Inuse kv)"
  shows "\<exists>kv' r. Put c kv h e = Some (Ret (kv', r))"
proof (cases "table_put c (tables kv ! (length (tables kv) - 1)) h e")
  case (Inr t')
  with assms(1) show ?thesis by (simp add: Put_def Put_loop_fits)
next
  case (Inl err)
  then have full: "table_put c (tables kv ! (length (tables kv) - 1)) h e = Inl errNotEnoughSpace"
    using table_put_error [OF Inl] by simp
  obtain t' where "table_put c (newTable (KVStore_Inuse kv * 2)) h e = Inr t'"
    using table_put_Inr_ex [of "newTable (KVStore_Inuse kv * 2)" c e h] assms(2)
    by (auto simp: mult.commute)
  with full have "Put_loop c kv None h e
      = Some (kv\<lparr>tables := tables kv @ [t']\<rparr>, Some storage_ErrFragmented)"
    by (rule Put_loop_spill)
  with assms(1) show ?thesis by (simp add: Put_def)
qed

lemma Put_never_returns:
  "tables kv \<noteq> [] \<Longrightarrow> stuck c kv e \<Longrightarrow> Put c kv h e = None"
  by (simp add: Put_def Put_loop_diverges)

lemma Get_newest_holds:
  assumes "ts \<noteq> []" and "table_get c (ts ! (length ts - 1)) h = (Some e, False)"
  shows "Get c (kv\<lparr>tables := ts\<rparr>) h = Ret (Inr (Some e))"
proof -
  from assms(1) obtain n where n: "length ts = Suc n"
    by (cases ts) auto
  with assms(2) show ?thesis
    by (simp add: Get_def)
qed

text \<open>
  Claim C2. When the put on the newest table fails with \<open>errNotEnoughSpace\<close>, \<open>Put\<close>
  goes on as the loop does on the chain extended by a new table, with \<open>res\<close> set to
  \<open>storage_ErrFragmented\<close>. The new table is \<open>newTable (2 * Inuse)\<close>; its capacity is
  \<open>max minimumSize (2 * Inuse)\<close>, so never below \<open>minimumSize = 65536\<close>. The retried put
  goes to the new table: when it succeeds there, the chain of the result is the old chain
  followed by the new table with the entry.
\<close>

theorem Put_allocates_on_NotEnoughSpace:
  assumes "tables kv \<noteq> []"
    and "table_put c (tables kv ! (length (tables kv) - 1)) h e = Inl errNotEnoughSpace"
  shows "Put c kv h e
      = map_option Ret
          (Put_loop c (kv\<lparr>tables := tables kv @ [newTable (2 * KVStore_Inuse kv)]\<rparr>)
             (Some storage_ErrFragmented) h e)
    \<and> allocated (newTable (2 * KVStore_Inuse kv)) = max minimumSize (2 * KVStore_Inuse kv)
    \<and> minimumSize \<le> allocated (newTable (2 * KVStore_Inuse kv))
    \<and> minimumSize = 65536
    \<and> (\<forall>t'. table_put c (newTable (2 * KVStore_Inuse kv)) h e = Inr t' \<longrightarrow>
          Put c kv h e
            = Some (Ret (kv\<lparr>tables := tables kv @ [t']\<rparr>, Some storage_ErrFragmented)))"
proof (intro conjI allI impI)
  show "Put c kv h e
      = map_option Ret
          (Put_loop c (kv\<lparr>tables := tables kv @ [newTable (2 * KVStore_Inuse kv)]\<rparr>)
             (Some storage_ErrFragmented) h e)"
    using assms by (simp add: Put_def Put_loop_retry mult.commute)
next
  fix t'
  assume "table_put c (newTable (2 * KVStore_Inuse kv)) h e = Inr t'"
  then have "table_put c (newTable (KVStore_Inuse kv * 2)) h e = Inr t'"
    by (simp add: mult.commute)
  with assms(2) have "Put_loop c kv None h e
      = Some (kv\<lparr>tables := tables kv @ [t']\<rparr>, Some storage_ErrFragmented)"
    by (rule Put_loop_spill)
  with assms(1) show "Put c kv h e
      = Some (Ret (kv\<lparr>tables := tables kv @ [t']\<rparr>, Some storage_ErrFragmented))"
    by (simp add: Put_def)
qed (simp_all add: minimumSize_def)

theorem Put_allocates_on_NotEnoughSpace_witness:
  "\<exists>t'. Put demo_codec \<lparr>tables = [demo_table 1 [7]], options = Map.empty\<rparr> 1 (replicate 32767 9)
       = Some (Ret (\<lparr>tables = [demo_table 1 [7], t'], options = Map.empty\<rparr>,
                    Some storage_ErrFragmented))
     \<and> allocated t' = 65536 \<and> hkeys t' 1 = Some 0 \<and> offset t' = 65535"
proof -
  let ?kv = "\<lparr>tables = [demo_table 1 [7]], options = Map.empty\<rparr>"
  let ?p = "replicate 32767 (9 :: byte)"
  have ne: "tables ?kv \<noteq> []" by simp
  have len: "int (length (encode demo_codec ?p)) = 65535"
    by (simp add: demo_codec_def length_demo_encode)
  have full: "table_put demo_codec (tables ?kv ! (length (tables ?kv) - 1)) 1 ?p
      = Inl errNotEnoughSpace"
    by (simp add: table_put_Inl_iff len demo_table_fields)
  have inuse: "2 * KVStore_Inuse ?kv = 6"
    by (simp add: KVStore_Inuse_sum demo_table_fields)
  obtain t' where t': "table_put demo_codec (newTable (2 * KVStore_Inuse ?kv)) 1 ?p = Inr t'"
    using table_put_Inr_ex [of "newTable (2 * KVStore_Inuse ?kv)" demo_codec ?p 1]
    by (auto simp: len inuse minimumSize_def)
  from Put_allocates_on_NotEnoughSpace [OF ne full] t'
  have "Put demo_codec ?kv 1 ?p
      = Some (Ret (?kv\<lparr>tables := tables ?kv @ [t']\<rparr>, Some storage_ErrFragmented))"
    by blast
  moreover have "allocated t' = 65536" "hkeys t' 1 = Some 0" "offset t' = 65535"
    using table_put_fields [OF t'] by (simp_all add: inuse len minimumSize_def)
  ultimately show ?thesis by simp
qed

text \<open>
  Claim C6. For a call of \<open>Put\<close> that returns, on a well-formed engine: the result is
  \<open>storage_ErrFragmented\<close> exactly when the chain has grown, that is, when a table was
  allocated during the call; the result is otherwise no error, so \<open>Put\<close> returns no
  failure at all; and in both cases the entry is stored: a \<open>Get\<close> for the key on the
  resulting engine returns it. (A call whose entry fits neither the newest table nor a
  new one goes on allocating and never returns: \<open>Put_never_returns\<close>; every other call
  returns: \<open>Put_returns\<close>.)
\<close>

theorem Put_Fragmented_iff_allocated:
  assumes "codec_ok c" and "kv_wf c kv" and "Put c kv h e = Some (Ret (kv', r))"
  shows "(r = Some storage_ErrFragmented \<longleftrightarrow> length (tables kv) < length (tables kv'))
    \<and> (r = None \<or> r = Some storage_ErrFragmented)
    \<and> Get c kv' h = Ret (Inr (Some e))"
proof -
  from assms(2) have ne: "tables kv \<noteq> []"
    and wf: "table_wf c (tables kv ! (length (tables kv) - 1))"
    by (simp_all add: kv_wf_def)
  from Put_cases [OF ne assms(3)] show ?thesis
  proof (elim disjE exE conjE)
    fix t'
    assume put: "table_put c (tables kv ! (length (tables kv) - 1)) h e = Inr t'"
      and r: "r = None"
      and kv': "kv' = kv\<lparr>tables := (tables kv)[length (tables kv) - 1 := t']\<rparr>"
    from wf have "0 \<le> offset (tables kv ! (length (tables kv) - 1))"
      and "int (length (memory (tables kv ! (length (tables kv) - 1))))
        = allocated (tables kv ! (length (tables kv) - 1))"
      by (simp_all add: table_wf_def)
    with assms(1) put have "table_get c t' h = (Some e, False)"
      by (rule table_put_get)
    then have "Get c kv' h = Ret (Inr (Some e))"
      unfolding kv' using ne by (intro Get_newest_holds) simp_all
    with r kv' show ?thesis by simp
  next
    fix t'
    assume put: "table_put c (newTable (2 * KVStore_Inuse kv)) h e = Inr t'"
      and r: "r = Some storage_ErrFragmented"
      and kv': "kv' = kv\<lparr>tables := tables kv @ [t']\<rparr>"
    have "table_get c t' h = (Some e, False)"
      using assms(1) put by (rule table_put_get) (simp_all add: minimumSize_def)
    then have "Get c kv' h = Ret (Inr (Some e))"
      unfolding kv' by (intro Get_newest_holds) simp_all
    with r kv' show ?thesis by simp
  qed
qed

subsection \<open>Well-formed engines and the round trip of Export and Import\<close>

lemma demo_table_wf:
  assumes "2 * length p + 1 \<le> 65536"
  shows "table_wf demo_codec (demo_table k p)"
proof -
  have mem: "memory (demo_table k p) = demo_encode p @ replicate (65536 - length (demo_encode p)) 0"
    by (simp add: demo_table_def)
  have "frame_at demo_codec (demo_table k p) 0"
    by (simp add: frame_at_def demo_frame_len demo_table_fields)
       (simp add: mem demo_codec_def demo_decode_encode length_demo_encode)
  moreover have "int (length (memory (demo_table k p))) = 65536"
    using assms by (simp add: mem length_demo_encode)
  ultimately show ?thesis
    using assms by (simp add: table_wf_def demo_table_fields minimumSize_def)
qed

lemma kv_wf_New: "New opts = Ret (Inr kv) \<Longrightarrow> kv_wf c kv"
  by (auto simp: New_def kv_wf_def table_wf_newTable split: option.splits optval.splits)

lemma kv_wf_Put:
  assumes "codec_ok c" and "kv_wf c kv" and "Put c kv h e = Some (Ret (kv', r))"
  shows "kv_wf c kv'"
proof -
  from assms(2) have ne: "tables kv \<noteq> []" and all: "\<forall>t \<in> set (tables kv). table_wf c t"
    by (simp_all add: kv_wf_def)
  then have wf: "table_wf c (tables kv ! (length (tables kv) - 1))"
    by simp
  from Put_cases [OF ne assms(3)] show ?thesis
  proof (elim disjE exE conjE)
    fix t'
    assume put: "table_put c (tables kv ! (length (tables kv) - 1)) h e = Inr t'"
      and kv': "kv' = kv\<lparr>tables := (tables kv)[length (tables kv) - 1 := t']\<rparr>"
    have "table_wf c t'"
      using assms(1) wf put by (rule table_wf_put)
    with all ne show ?thesis
      unfolding kv' kv_wf_def using set_update_subset_insert [of "tables kv" "length (tables kv) - 1" t']
      by auto
  next
    fix t'
    assume put: "table_put c (newTable (2 * KVStore_Inuse kv)) h e = Inr t'"
      and kv': "kv' = kv\<lparr>tables := tables kv @ [t']\<rparr>"
    have "table_wf c t'"
      using assms(1) table_wf_newTable put by (rule table_wf_put)
    with all show ?thesis
      unfolding kv' kv_wf_def by auto
  qed
qed

lemma Delete_loop_wf:
  "\<forall>t \<in> set ts. table_wf c t \<Longrightarrow> i \<le> length ts \<Longrightarrow>
   \<forall>t \<in> set (Delete_loop c ts h i). table_wf c t"
proof (induction i arbitrary: ts)
  case 0
  then show ?case by simp
next
  case (Suc i)
  let ?t' = "fst (table_delete c (ts ! i) h)"
  from Suc.prems have "table_wf c (ts ! i)" by simp
  then have "table_wf c ?t'" by (rule table_wf_delete)
  with Suc.prems(1) have upd: "\<forall>t \<in> set (ts[i := ?t']). table_wf c t"
    using set_update_subset_insert [of ts i ?t'] by auto
  with Suc.prems(2) have "\<forall>t \<in> set (Delete_loop c (ts[i := ?t']) h i). table_wf c t"
    by (intro Suc.IH) simp_all
  with upd show ?case
    by (cases "table_delete c (ts ! i) h") auto
qed

lemma kv_wf_Delete:
  assumes "kv_wf c kv" and "Delete c kv h = Ret (kv', r)"
  shows "kv_wf c kv'"
proof -
  let ?ts = "Delete_loop c (tables kv) h (length (tables kv))"
  from assms(1) have ne: "tables kv \<noteq> []" and all: "\<forall>t \<in> set (tables kv). table_wf c t"
    by (simp_all add: kv_wf_def)
  from all have wf: "\<forall>t \<in> set ?ts. table_wf c t"
    by (rule Delete_loop_wf) simp
  have "?ts \<noteq> []" using ne by (metis Delete_loop_length length_0_conv)
  with assms(2) ne wf show ?thesis
    by (auto simp: Delete_def Let_def kv_wf_def table_wf_newTable simp del: Delete_loop.simps
        split: if_splits)
qed


lemma demo_kv_wf: "kv_wf demo_codec \<lparr>tables = [demo_table 1 [7]], options = Map.empty\<rparr>"
  by (simp add: kv_wf_def demo_table_wf)

theorem Put_Fragmented_iff_allocated_witness:
  "\<exists>kv' kv''.
     Put demo_codec \<lparr>tables = [demo_table 1 [7]], options = Map.empty\<rparr> 1 (replicate 32767 9)
       = Some (Ret (kv', Some storage_ErrFragmented))
     \<and> length (tables kv') = 2
     \<and> Get demo_codec kv' 1 = Ret (Inr (Some (replicate 32767 9)))
     \<and> Put demo_codec \<lparr>tables = [demo_table 1 [7]], options = Map.empty\<rparr> 2 [5]
       = Some (Ret (kv'', None))
     \<and> length (tables kv'') = 1
     \<and> Get demo_codec kv'' 2 = Ret (Inr (Some [5]))"
proof -
  let ?kv = "\<lparr>tables = [demo_table 1 [7]], options = Map.empty\<rparr>"
  let ?p = "replicate 32767 (9 :: byte)"
  have len: "int (length (encode demo_codec ?p)) = 65535"
    and len5: "int (length (encode demo_codec [5])) = 3"
    by (simp_all add: demo_codec_def length_demo_encode)
  have last: "tables ?kv ! (length (tables ?kv) - Suc 0) = demo_table 1 [7]"
    by simp
  have full: "table_put demo_codec (demo_table 1 [7]) 1 ?p = Inl errNotEnoughSpace"
    by (simp add: table_put_Inl_iff len demo_table_fields)
  have inuse: "KVStore_Inuse ?kv * 2 = 6"
    by (simp add: KVStore_Inuse_sum demo_table_fields)
  obtain t' where t': "table_put demo_codec (newTable 6) 1 ?p = Inr t'"
    using table_put_Inr_ex [of "newTable 6" demo_codec ?p 1]
    by (auto simp: len minimumSize_def)
  have "Put_loop demo_codec ?kv None 1 ?p
      = Some (?kv\<lparr>tables := tables ?kv @ [t']\<rparr>, Some storage_ErrFragmented)"
    by (rule Put_loop_spill) (simp_all add: last full inuse t')
  then have put: "Put demo_codec ?kv 1 ?p
      = Some (Ret (?kv\<lparr>tables := tables ?kv @ [t']\<rparr>, Some storage_ErrFragmented))"
    by (simp add: Put_def)
  obtain t5 where t5: "table_put demo_codec (demo_table 1 [7]) 2 [5] = Inr t5"
    using table_put_Inr_ex [of "demo_table 1 [7]" demo_codec "[5]" 2]
    by (auto simp: len5 demo_table_fields)
  have "Put_loop demo_codec ?kv None 2 [5]
      = Some (?kv\<lparr>tables := (tables ?kv)[length (tables ?kv) - 1 := t5]\<rparr>, None)"
    by (rule Put_loop_fits) (simp add: t5)
  then have put5: "Put demo_codec ?kv 2 [5]
      = Some (Ret (?kv\<lparr>tables := (tables ?kv)[length (tables ?kv) - 1 := t5]\<rparr>, None))"
    by (simp add: Put_def)
  from Put_Fragmented_iff_allocated [OF demo_codec_ok demo_kv_wf put]
    Put_Fragmented_iff_allocated [OF demo_codec_ok demo_kv_wf put5] put put5
  show ?thesis by simp
qed

lemma import_memory_prefix:
  assumes "n \<le> length mem" and "n \<le> A"
  shows "take n (copy_at (replicate A 0) 0 (take n mem @ [0])) = take n mem"
  using assms by (simp add: copy_at_def min_def)

lemma Len_single: "tables kv = [t] \<Longrightarrow> Len kv = int (card (dom (hkeys t)))"
  by (simp add: Len_def)

lemma Stats_single:
  "tables kv = [t] \<Longrightarrow>
   Stats kv = [''allocated'' \<mapsto> allocated t, ''inuse'' \<mapsto> inuse t, ''garbage'' \<mapsto> garbage t]"
  by (simp add: Stats_def add_to_def fun_eq_iff)

lemma Get_single:
  "tables kv = [t] \<Longrightarrow>
   Get c kv h
     = Ret (case table_get c t h of
              (res, prev) \<Rightarrow> if prev then Inl storage_ErrKeyNotFound else Inr res)"
  by (cases "table_get c t h") (simp add: Get_def)

text \<open>
  Claim C3. Let the engine have exactly one table and be well formed (a codec that is
  self-delimiting, a table whose indexed frames lie below its \<open>offset\<close>), and let the wire
  functions be inverse to each other. Then \<open>Export\<close> succeeds, and \<open>Import\<close> of its result,
  called on any engine, succeeds with an engine of exactly one table that has the same
  \<open>Len\<close>, the same \<open>Stats\<close> and the same result of \<open>Get\<close> for every key.
\<close>

theorem Export_Import_roundtrip:
  assumes ok: "codec_ok c" and wf: "kv_wf c kv" and one: "length (tables kv) = 1"
    and mp: "\<forall>tr. Unmarshal mp (Marshal mp tr) = Inr tr"
  shows "\<exists>w kv'. Export mp kv = Ret (Inr w) \<and> Import mp kv0 w = Ret (Inr kv') \<and>
      length (tables kv') = 1 \<and> Len kv' = Len kv \<and> Stats kv' = Stats kv \<and>
      (\<forall>h. Get c kv' h = Get c kv h)"
proof -
  from one obtain t where ts: "tables kv = [t]"
    by (cases "tables kv") auto
  with wf have twf: "table_wf c t"
    by (simp add: kv_wf_def)
  then have o0: "0 \<le> offset t" and oa: "offset t \<le> allocated t"
    and len: "int (length (memory t)) = allocated t" and ms: "minimumSize \<le> allocated t"
    and frames: "\<And>k off. hkeys t k = Some off \<Longrightarrow> frame_at c t off"
    by (auto simp: table_wf_def)
  let ?n = "nat (offset t)"
  let ?tr = "\<lparr>HKeys = hkeys t, Memory = take ?n (memory t) @ [0], Offset = offset t,
      Allocated = allocated t, Inuse = inuse t, Garbage = garbage t\<rparr>"
  let ?mem = "copy_at (replicate (nat (allocated t)) 0) 0 (take ?n (memory t) @ [0])"
  let ?t' = "(newTable (allocated t))\<lparr>hkeys := hkeys t, offset := offset t, inuse := inuse t,
      garbage := garbage t, memory := ?mem\<rparr>"
  let ?kv' = "\<lparr>tables = [?t'], options = (options kv0)(''TableSize'' \<mapsto> IntV (allocated t))\<rparr>"
  have nle: "?n \<le> length (memory t)" "?n \<le> nat (allocated t)"
    using o0 oa len by linarith+
  have "copy_at (replicate (Suc ?n) 0) 0 (take ?n (memory t)) = take ?n (memory t) @ [0]"
    using nle(1) by (rule copy_prefix)
  moreover have "nat (offset t + 1) = Suc ?n"
    using o0 by linarith
  ultimately have ex: "Export mp kv = Ret (Inr (Marshal mp ?tr))"
    using ts o0 oa len by (simp add: Export_def Let_def)
  have mx: "max minimumSize (allocated t) = allocated t"
    using ms by simp
  have im: "Import mp kv0 (Marshal mp ?tr) = Ret (Inr ?kv')"
    using mp by (simp add: Import_def New_def Let_def mx)
  have pre: "take ?n ?mem = take ?n (memory t)"
    using nle by (rule import_memory_prefix)
  have alloc: "allocated ?t' = allocated t"
    by (simp add: mx)
  have get: "table_get c ?t' h = table_get c t h" for h
  proof (cases "hkeys t h")
    case None
    then show ?thesis by (simp add: table_get_def)
  next
    case (Some off)
    have "decode c (drop (nat off) ?mem) = decode c (drop (nat off) (memory t))"
      using ok frames [OF Some] pre by (rule frame_stable(1)) (rule order_refl)
    with Some show ?thesis by (simp add: table_get_def)
  qed
  have "Len ?kv' = Len kv"
    by (simp add: Len_single [of _ ?t'] Len_single [OF ts])
  moreover have "Stats ?kv' = Stats kv"
    by (simp add: Stats_single [of _ ?t'] Stats_single [OF ts] mx)
  moreover have "Get c ?kv' h = Get c kv h" for h
    by (simp add: Get_single [of _ ?t'] Get_single [OF ts] get)
  ultimately show ?thesis
    using ex im by (intro exI [of _ "Marshal mp ?tr"] exI [of _ ?kv']) simp
qed

theorem Export_Import_roundtrip_witness:
  "\<exists>w kv'.
     Export demo_msgpack \<lparr>tables = [demo_table 1 [7]], options = Map.empty\<rparr> = Ret (Inr w) \<and>
     Import demo_msgpack \<lparr>tables = [demo_table 1 [7]], options = Map.empty\<rparr> w = Ret (Inr kv') \<and>
     length (tables kv') = 1 \<and> Len kv' = 1 \<and>
     Stats kv' = [''allocated'' \<mapsto> 65536, ''inuse'' \<mapsto> 3, ''garbage'' \<mapsto> 0] \<and>
     Get demo_codec kv' 1 = Ret (Inr (Some [7])) \<and>
     Get demo_codec kv' 2 = Ret (Inl storage_ErrKeyNotFound)"
proof -
  let ?kv = "\<lparr>tables = [demo_table 1 [7]], options = Map.empty\<rparr>"
  have one: "length (tables ?kv) = 1" by simp
  have mp: "\<forall>tr. Unmarshal demo_msgpack (Marshal demo_msgpack tr) = Inr tr"
    by (simp add: demo_msgpack_def)
  have ts: "tables ?kv = [demo_table 1 [7]]" by simp
  have "Len ?kv = 1"
    by (simp add: Len_single [OF ts] demo_table_fields)
  moreover have "Stats ?kv = [''allocated'' \<mapsto> 65536, ''inuse'' \<mapsto> 3, ''garbage'' \<mapsto> 0]"
    by (simp add: Stats_single [OF ts] demo_table_fields)
  moreover have "Get demo_codec ?kv 1 = Ret (Inr (Some [7]))"
    "Get demo_codec ?kv 2 = Ret (Inl storage_ErrKeyNotFound)"
    by (simp_all add: Get_single [OF ts] demo_table_get)
  ultimately show ?thesis
    using Export_Import_roundtrip [OF demo_codec_ok demo_kv_wf one mp, of ?kv]
    by auto
qed

subsection \<open>The chain of tables is never empty\<close>

lemma New_one_table: "New opts = Ret (Inr kv) \<Longrightarrow> length (tables kv) = 1"
  by (auto simp: New_def split: option.splits optval.splits)

lemma Import_one_table: "Import mp kv data = Ret (Inr kv') \<Longrightarrow> length (tables kv') = 1"
  by (auto simp: Import_def Let_def dest!: New_one_table
      split: sum.splits outcome.splits)

lemma Put_loop_grows:
  assumes "Put_loop c kv res h e = Some y"
  shows "length (tables kv) \<le> length (tables (fst y))"
proof (rule Put_loop.raw_induct
    [where P = "\<lambda>c kv res h e y. length (tables kv) \<le> length (tables (fst y))", OF _ assms])
  fix f :: "'a codec \<Rightarrow> KVStore \<Rightarrow> error option \<Rightarrow> hkey \<Rightarrow> 'a \<Rightarrow> (KVStore \<times> error option) option"
    and c kv res h e y
  assume IH: "\<And>c kv res h e y. f c kv res h e = Some y \<Longrightarrow>
      length (tables kv) \<le> length (tables (fst y))"
    and body: "(case table_put c (tables kv ! (length (tables kv) - 1)) h e of
        Inl err \<Rightarrow>
          if err = errNotEnoughSpace
          then f c (kv\<lparr>tables := tables kv @ [newTable (KVStore_Inuse kv * 2)]\<rparr>)
                 (Some storage_ErrFragmented) h e
          else Some (kv, Some err)
      | Inr t' \<Rightarrow>
          Some (kv\<lparr>tables := (tables kv)[length (tables kv) - 1 := t']\<rparr>, res)) = Some y"
  show "length (tables kv) \<le> length (tables (fst y))"
  proof (cases "table_put c (tables kv ! (length (tables kv) - 1)) h e")
    case (Inr t')
    with body show ?thesis by auto
  next
    case (Inl err)
    show ?thesis
    proof (cases "err = errNotEnoughSpace")
      case True
      with body Inl
      have "f c (kv\<lparr>tables := tables kv @ [newTable (KVStore_Inuse kv * 2)]\<rparr>)
             (Some storage_ErrFragmented) h e = Some y"
        by simp
      from IH [OF this] show ?thesis by simp
    next
      case False
      with body Inl show ?thesis by auto
    qed
  qed
qed

lemma PutRaw_loop_grows:
  assumes "PutRaw_loop putRaw kv res h v = Some y"
  shows "length (tables kv) \<le> length (tables (fst y))"
proof (rule PutRaw_loop.raw_induct
    [where P = "\<lambda>putRaw kv res h v y. length (tables kv) \<le> length (tables (fst y))", OF _ assms])
  fix f :: "(table \<Rightarrow> hkey \<Rightarrow> byte list \<Rightarrow> error + table) \<Rightarrow> KVStore \<Rightarrow> error option \<Rightarrow> hkey
      \<Rightarrow> byte list \<Rightarrow> (KVStore \<times> error option) option"
    and putRaw kv res h v y
  assume IH: "\<And>putRaw kv res h v y. f putRaw kv res h v = Some y \<Longrightarrow>
      length (tables kv) \<le> length (tables (fst y))"
    and body: "(case putRaw (tables kv ! (length (tables kv) - 1)) h v of
        Inl err \<Rightarrow>
          if err = errNotEnoughSpace
          then f putRaw (kv\<lparr>tables := tables kv @ [newTable (KVStore_Inuse kv * 2)]\<rparr>)
                 (Some storage_ErrFragmented) h v
          else Some (kv, Some err)
      | Inr t' \<Rightarrow>
          Some (kv\<lparr>tables := (tables kv)[length (tables kv) - 1 := t']\<rparr>, res)) = Some y"
  show "length (tables kv) \<le> length (tables (fst y))"
  proof (cases "putRaw (tables kv ! (length (tables kv) - 1)) h v")
    case (Inr t')
    with body show ?thesis by auto
  next
    case (Inl err)
    show ?thesis
    proof (cases "err = errNotEnoughSpace")
      case True
      with body Inl
      have "f putRaw (kv\<lparr>tables := tables kv @ [newTable (KVStore_Inuse kv * 2)]\<rparr>)
             (Some storage_ErrFragmented) h v = Some y"
        by simp
      from IH [OF this] show ?thesis by simp
    next
      case False
      with body Inl show ?thesis by auto
    qed
  qed
qed

lemma Put_grows:
  "Put c kv h e = Some (Ret (kv', r)) \<Longrightarrow> length (tables kv) \<le> length (tables kv')"
  using Put_loop_grows [of c kv None h e "(kv', r)"]
  by (auto simp: Put_def split: if_splits)

lemma PutRaw_grows:
  "PutRaw putRaw kv h v = Some (Ret (kv', r)) \<Longrightarrow> length (tables kv) \<le> length (tables kv')"
  using PutRaw_loop_grows [of putRaw kv None h v "(kv', r)"]
  by (auto simp: PutRaw_def split: if_splits)

lemma Delete_grows:
  "Delete c kv h = Ret (kv', r) \<Longrightarrow> length (tables kv) \<le> length (tables kv')"
  by (auto simp: Delete_def Let_def simp del: Delete_loop.simps split: if_splits)

lemma UpdateTTL_loop_length [simp]:
  "length (fst (UpdateTTL_loop updateTTL ts h d i)) = length ts"
  by (induction i arbitrary: ts) (auto split: prod.splits)

lemma UpdateTTL_same_length:
  "UpdateTTL updateTTL kv h d = Ret (kv', r) \<Longrightarrow> length (tables kv') = length (tables kv)"
  using UpdateTTL_loop_length [of updateTTL "tables kv" h d "length (tables kv)"]
  by (auto simp: UpdateTTL_def simp del: UpdateTTL_loop_length split: if_splits prod.splits)

lemma reachable_nonempty:
  "reachable c putRaw updateTTL mp kv \<Longrightarrow> 1 \<le> length (tables kv)"
proof (induction rule: reachable.induct)
  case (reach_New opts kv)
  then show ?case by (simp add: New_one_table)
next
  case (reach_Fork kv kv')
  then show ?case by (simp add: Fork_def New_one_table)
next
  case (reach_Import kv data kv')
  then show ?case by (simp add: Import_one_table)
next
  case (reach_Put kv h e kv' r)
  then show ?case using Put_grows by fastforce
next
  case (reach_PutRaw kv h v kv' r)
  then show ?case using PutRaw_grows by fastforce
next
  case (reach_Delete kv h kv' r)
  then show ?case using Delete_grows by fastforce
next
  case (reach_UpdateTTL kv h d kv' r)
  then show ?case using UpdateTTL_same_length by fastforce
qed


text \<open>
  Claim C10. \<open>New\<close> installs exactly one table. In every engine reachable from \<open>New\<close> the
  chain of tables is not empty; \<open>Put\<close>, \<open>PutRaw\<close> and \<open>Delete\<close> return an engine whose
  chain is at least as long as before, and \<open>UpdateTTL\<close> one whose chain has the same
  length; and no operation on a reachable engine takes the branch that panics with
  "tables cannot be empty" (the model has no other panic in these operations).
\<close>

theorem chain_never_empty:
  assumes "reachable c putRaw updateTTL mp kv"
  shows "1 \<le> length (tables kv)
    \<and> (\<forall>opts kv0. New opts = Ret (Inr kv0) \<longrightarrow> length (tables kv0) = 1)
    \<and> (\<forall>h e kv' r. Put c kv h e = Some (Ret (kv', r))
          \<longrightarrow> length (tables kv) \<le> length (tables kv'))
    \<and> (\<forall>h v kv' r. PutRaw putRaw kv h v = Some (Ret (kv', r))
          \<longrightarrow> length (tables kv) \<le> length (tables kv'))
    \<and> (\<forall>h kv' r. Delete c kv h = Ret (kv', r)
          \<longrightarrow> length (tables kv) \<le> length (tables kv'))
    \<and> (\<forall>h d kv' r. UpdateTTL updateTTL kv h d = Ret (kv', r)
          \<longrightarrow> length (tables kv') = length (tables kv))
    \<and> (\<forall>h e v d msg.
          Put c kv h e \<noteq> Some (Panic msg) \<and> PutRaw putRaw kv h v \<noteq> Some (Panic msg) \<and>
          Get c kv h \<noteq> Panic msg \<and> Delete c kv h \<noteq> Panic msg \<and>
          UpdateTTL updateTTL kv h d \<noteq> Panic msg \<and> Check kv h \<noteq> Panic msg)"
proof -
  from assms have ne: "1 \<le> length (tables kv)"
    by (rule reachable_nonempty)
  then have np: "Put c kv h e \<noteq> Some (Panic msg)" "PutRaw putRaw kv h v \<noteq> Some (Panic msg)"
    "Get c kv h \<noteq> Panic msg" "Delete c kv h \<noteq> Panic msg"
    "UpdateTTL updateTTL kv h d \<noteq> Panic msg" "Check kv h \<noteq> Panic msg" for h e v d msg
    by (auto simp: Put_def PutRaw_def Get_def Delete_def UpdateTTL_def Check_def Let_def
        simp del: Delete_loop.simps split: prod.splits)
  show ?thesis
  proof (intro conjI allI impI)
    show "1 \<le> length (tables kv)" by (rule ne)
  qed (use np in \<open>auto dest: New_one_table Put_grows PutRaw_grows Delete_grows
      UpdateTTL_same_length\<close>)
qed

theorem chain_never_empty_witness:
  "\<exists>kv. New [''TableSize'' \<mapsto> IntV 65536] = Ret (Inr kv) \<and>
     Delete demo_codec kv 1 = Ret (kv, None) \<and>
     length (tables kv) = 1 \<and>
     Get demo_codec kv 1 = Ret (Inl storage_ErrKeyNotFound) \<and>
     Check kv 1 = Ret False"
proof -
  let ?opts = "[''TableSize'' \<mapsto> IntV 65536]"
  let ?kv = "\<lparr>tables = [newTable 65536], options = ?opts\<rparr>"
  let ?putRaw = "\<lambda>(t :: table) (h :: hkey) (v :: byte list). (Inr t :: error + table)"
  let ?updateTTL = "\<lambda>(t :: table) (h :: hkey) (d :: byte list). (t, False)"
  have new: "New ?opts = Ret (Inr ?kv)"
    by (simp add: New_def)
  have del: "Delete demo_codec ?kv 1 = Ret (?kv, None)"
    by (simp add: Delete_def Let_def table_delete_def maxGarbageRatio_def minimumSize_def)
  have "reachable demo_codec ?putRaw ?updateTTL demo_msgpack ?kv"
    using new by (rule reach_New)
  then have "reachable demo_codec ?putRaw ?updateTTL demo_msgpack ?kv"
    using del by (rule reach_Delete)
  from chain_never_empty [OF this]
  have "\<forall>opts kv0. New opts = Ret (Inr kv0) \<longrightarrow> length (tables kv0) = 1"
    by (rule conjunct2 [THEN conjunct1])
  with new have "length (tables ?kv) = 1"
    by blast
  moreover have "Get demo_codec ?kv 1 = Ret (Inl storage_ErrKeyNotFound)" "Check ?kv 1 = Ret False"
    by (simp_all add: Get_def Check_def table_get_def)
  ultimately show ?thesis
    using new del by blast
qed

subsection \<open>Unlocking and locking\<close>

text \<open>
  Claim C4. Let the collaborators \<open>get\<close> and \<open>unmarshalValue\<close> not return \<open>ErrNoSuchLock\<close>
  themselves. Then \<open>unlockKey\<close> returns \<open>ErrNoSuchLock\<close> exactly when \<open>get\<close> returns
  \<open>ErrKeyNotFound\<close> or the stored value is a byte slice different from the token. When the
  stored value is the token, the key is deleted, and the result is that of the delete, an
  error of which comes back wrapped with the tag "unlock failed because of delete". In
  every other case the delete does not take place: the state is the one \<open>get\<close> left.
\<close>

theorem unlockKey_NoSuchLock:
  assumes "snd (get dm s key) \<noteq> Inl ErrNoSuchLock"
    and "\<forall>en. snd (get dm s key) = Inr en
           \<longrightarrow> unmarshalValue dm (entryValue dm en) \<noteq> Inl ErrNoSuchLock"
  shows "((\<exists>s'. unlockKey dm s key token = Ret (s', Some ErrNoSuchLock))
        \<longleftrightarrow> (snd (get dm s key) = Inl ErrKeyNotFound
             \<or> (\<exists>en val. snd (get dm s key) = Inr en
                   \<and> unmarshalValue dm (entryValue dm en) = Inr (ByteSlice val)
                   \<and> val \<noteq> token)))
    \<and> (\<forall>en. snd (get dm s key) = Inr en
             \<and> unmarshalValue dm (entryValue dm en) = Inr (ByteSlice token)
          \<longrightarrow> unlockKey dm s key token
                = (case deleteKey dm (fst (get dm s key)) key of
                     (s2, Some err) \<Rightarrow>
                       Ret (s2, Some (ErrorfW ''unlock failed because of delete'' err))
                   | (s2, None) \<Rightarrow> Ret (s2, None)))
    \<and> ((\<forall>en. snd (get dm s key) = Inr en
             \<longrightarrow> unmarshalValue dm (entryValue dm en) \<noteq> Inr (ByteSlice token))
          \<longrightarrow> (\<forall>s' r. unlockKey dm s key token = Ret (s', r) \<longrightarrow> s' = fst (get dm s key)))"
  using assms
  by (cases "get dm s key")
     (auto simp: unlockKey_def split: sum.splits goval.splits prod.splits option.splits if_splits)


theorem unlockKey_NoSuchLock_witness:
  "unlockKey demo_dmap [''k'' \<mapsto> [1, 2]] ''k'' [1, 2] = Ret (Map.empty, None)
   \<and> unlockKey demo_dmap [''k'' \<mapsto> [1, 2]] ''k'' [3] = Ret ([''k'' \<mapsto> [1, 2]], Some ErrNoSuchLock)
   \<and> unlockKey demo_dmap [''k'' \<mapsto> [1, 2]] ''j'' [1, 2]
       = Ret ([''k'' \<mapsto> [1, 2]], Some ErrNoSuchLock)
   \<and> unlockKey (demo_dmap\<lparr>deleteKey := \<lambda>s k. (s, Some (ErrOther ''io''))\<rparr>)
         [''k'' \<mapsto> [1, 2]] ''k'' [1, 2]
       = Ret ([''k'' \<mapsto> [1, 2]],
              Some (ErrorfW ''unlock failed because of delete'' (ErrOther ''io'')))"
proof -
  let ?s = "[''k'' \<mapsto> [1, 2 :: byte]]"
  let ?dm' = "demo_dmap\<lparr>deleteKey := \<lambda>s k. (s, Some (ErrOther ''io''))\<rparr>"
  have g: "get demo_dmap ?s ''k'' = (?s, Inr [1, 2])" "get demo_dmap ?s ''j'' = (?s, Inl ErrKeyNotFound)"
    "get ?dm' ?s ''k'' = (?s, Inr [1, 2])"
    by (simp_all add: demo_dmap_def)
  have u: "unmarshalValue demo_dmap (entryValue demo_dmap v) = Inr (ByteSlice v)"
    "unmarshalValue ?dm' (entryValue ?dm' v) = Inr (ByteSlice v)" for v
    by (simp_all add: demo_dmap_def)
  have d: "deleteKey demo_dmap ?s ''k'' = (Map.empty, None)"
    "deleteKey ?dm' ?s ''k'' = (?s, Some (ErrOther ''io''))"
    by (simp_all add: demo_dmap_def)
  have a1: "snd (get demo_dmap ?s ''k'') \<noteq> Inl ErrNoSuchLock"
    and a2: "\<forall>en. snd (get demo_dmap ?s ''k'') = Inr en
           \<longrightarrow> unmarshalValue demo_dmap (entryValue demo_dmap en) \<noteq> Inl ErrNoSuchLock"
    and b1: "snd (get demo_dmap ?s ''j'') \<noteq> Inl ErrNoSuchLock"
    and b2: "\<forall>en. snd (get demo_dmap ?s ''j'') = Inr en
           \<longrightarrow> unmarshalValue demo_dmap (entryValue demo_dmap en) \<noteq> Inl ErrNoSuchLock"
    and c1: "snd (get ?dm' ?s ''k'') \<noteq> Inl ErrNoSuchLock"
    and c2: "\<forall>en. snd (get ?dm' ?s ''k'') = Inr en
           \<longrightarrow> unmarshalValue ?dm' (entryValue ?dm' en) \<noteq> Inl ErrNoSuchLock"
    by (simp_all add: g u)
  have "unlockKey demo_dmap ?s ''k'' [1, 2] = Ret (Map.empty, None)"
  proof -
    have "snd (get demo_dmap ?s ''k'') = Inr [1, 2]
        \<and> unmarshalValue demo_dmap (entryValue demo_dmap [1, 2]) = Inr (ByteSlice [1, 2])"
      by (simp add: g u)
    with unlockKey_NoSuchLock [OF a1 a2, of "[1, 2]", THEN conjunct2, THEN conjunct1]
    have "unlockKey demo_dmap ?s ''k'' [1, 2]
        = (case deleteKey demo_dmap (fst (get demo_dmap ?s ''k'')) ''k'' of
             (s2, Some err) \<Rightarrow> Ret (s2, Some (ErrorfW ''unlock failed because of delete'' err))
           | (s2, None) \<Rightarrow> Ret (s2, None))"
      by blast
    then show ?thesis by (simp only: g fst_conv d prod.case option.case)
  qed
  moreover have "unlockKey demo_dmap ?s ''k'' [3] = Ret (?s, Some ErrNoSuchLock)"
  proof -
    have "\<exists>en val. snd (get demo_dmap ?s ''k'') = Inr en
        \<and> unmarshalValue demo_dmap (entryValue demo_dmap en) = Inr (ByteSlice val) \<and> val \<noteq> [3]"
      by (simp add: g u)
    with unlockKey_NoSuchLock [OF a1 a2, of "[3]", THEN conjunct1]
    obtain s' where r: "unlockKey demo_dmap ?s ''k'' [3] = Ret (s', Some ErrNoSuchLock)"
      by blast
    have "\<forall>en. snd (get demo_dmap ?s ''k'') = Inr en
        \<longrightarrow> unmarshalValue demo_dmap (entryValue demo_dmap en) \<noteq> Inr (ByteSlice [3])"
      by (simp add: g u)
    with unlockKey_NoSuchLock [OF a1 a2, of "[3]", THEN conjunct2, THEN conjunct2] r
    have "s' = fst (get demo_dmap ?s ''k'')"
      by blast
    with r show ?thesis by (simp add: g)
  qed
  moreover have "unlockKey demo_dmap ?s ''j'' [1, 2] = Ret (?s, Some ErrNoSuchLock)"
  proof -
    have "snd (get demo_dmap ?s ''j'') = Inl ErrKeyNotFound"
      by (simp add: g)
    with unlockKey_NoSuchLock [OF b1 b2, of "[1, 2]", THEN conjunct1]
    obtain s' where r: "unlockKey demo_dmap ?s ''j'' [1, 2] = Ret (s', Some ErrNoSuchLock)"
      by blast
    have "\<forall>en. snd (get demo_dmap ?s ''j'') = Inr en
        \<longrightarrow> unmarshalValue demo_dmap (entryValue demo_dmap en) \<noteq> Inr (ByteSlice [1, 2])"
      by (simp add: g)
    with unlockKey_NoSuchLock [OF b1 b2, of "[1, 2]", THEN conjunct2, THEN conjunct2] r
    have "s' = fst (get demo_dmap ?s ''j'')"
      by blast
    with r show ?thesis by (simp add: g)
  qed
  moreover have "unlockKey ?dm' ?s ''k'' [1, 2]
      = Ret (?s, Some (ErrorfW ''unlock failed because of delete'' (ErrOther ''io'')))"
  proof -
    have "snd (get ?dm' ?s ''k'') = Inr [1, 2]
        \<and> unmarshalValue ?dm' (entryValue ?dm' [1, 2]) = Inr (ByteSlice [1, 2])"
      by (simp add: g u)
    with unlockKey_NoSuchLock [OF c1 c2, of "[1, 2]", THEN conjunct2, THEN conjunct1]
    have "unlockKey ?dm' ?s ''k'' [1, 2]
        = (case deleteKey ?dm' (fst (get ?dm' ?s ''k'')) ''k'' of
             (s2, Some err) \<Rightarrow> Ret (s2, Some (ErrorfW ''unlock failed because of delete'' err))
           | (s2, None) \<Rightarrow> Ret (s2, None))"
      by blast
    then show ?thesis by (simp only: g fst_conv d prod.case option.case)
  qed
  ultimately show ?thesis by (intro conjI)
qed

lemma lockKey_opcode: "lockKey dm rnd now sched s op key timeout deadline
    = lockKey dm rnd now sched s op' key timeout deadline"
  by (cases rnd) (simp_all add: lockKey_def prepareAndSerialize_def Let_def)

lemma length_token: "length (copy_at (replicate 16 0) 0 bs) = 16"
  by (simp add: copy_at_def)

text \<open>
  Claim C9. For every key and deadline, and with the same outcome of the random source,
  the same clock, the same course of the waiting and the same state of the map,
  \<open>Lock key deadline\<close> gives what \<open>LockWithTimeout key nilTimeout deadline\<close> gives. Both
  prepare the same env for the token: its condition is \<open>IfNotFound\<close>, its timeout
  \<open>nilTimeout\<close> (zero: no expiry) and its value the serialized token. On success the lock
  context carries the 16-byte token, the key, and the name and handle of the map.
\<close>

theorem Lock_is_LockWithTimeout_nilTimeout:
  "Lock dm rnd now sched s key deadline
     = LockWithTimeout dm rnd now sched s key nilTimeout deadline
   \<and> (\<forall>token.
        prepareAndSerialize dm now OpPutIf key token nilTimeout IfNotFound
          = prepareAndSerialize dm now OpPutIfEx key token nilTimeout IfNotFound
        \<and> (\<forall>e. prepareAndSerialize dm now OpPutIf key token nilTimeout IfNotFound = Inr e
              \<longrightarrow> env_flags e = IfNotFound \<and> env_timeout e = 0 \<and> env_key e = key
                  \<and> env_dmap e = name dm \<and> serialize dm token = Inr (env_value e)))
   \<and> (\<forall>s' ctx. Lock dm rnd now sched s key deadline = Some (s', Inr ctx)
        \<longrightarrow> (\<exists>bs. rnd = Inr bs \<and> lc_token ctx = copy_at (replicate 16 0) 0 bs)
            \<and> length (lc_token ctx) = 16 \<and> lc_key ctx = key \<and> lc_name ctx = name dm
            \<and> lc_dm ctx = dm)"
proof (intro conjI allI impI)
  show "Lock dm rnd now sched s key deadline
     = LockWithTimeout dm rnd now sched s key nilTimeout deadline"
    unfolding Lock_def LockWithTimeout_def by (rule lockKey_opcode)
next
  fix s' ctx
  assume "Lock dm rnd now sched s key deadline = Some (s', Inr ctx)"
  then obtain bs where "rnd = Inr bs"
    and ctx: "ctx = \<lparr>lc_name = name dm, lc_key = key,
        lc_token = copy_at (replicate 16 0) 0 bs, lc_dm = dm\<rparr>"
    by (auto simp: Lock_def lockKey_def Let_def split: sum.splits option.splits prod.splits)
  then show "\<exists>bs. rnd = Inr bs \<and> lc_token ctx = copy_at (replicate 16 0) 0 bs"
    by simp
  from ctx show "length (lc_token ctx) = 16" "lc_key ctx = key" "lc_name ctx = name dm"
    "lc_dm ctx = dm"
    by (simp_all add: length_token)
qed (auto simp: prepareAndSerialize_def nilTimeout_def split: sum.splits)

theorem Lock_is_LockWithTimeout_nilTimeout_witness:
  "Lock demo_dmap (Inr (replicate 16 7)) 0 (\<lambda>d. []) Map.empty ''k'' 1000
     = Some ([''k'' \<mapsto> replicate 16 7],
             Inr \<lparr>lc_name = ''locks'', lc_key = ''k'', lc_token = replicate 16 7,
                  lc_dm = demo_dmap\<rparr>)
   \<and> LockWithTimeout demo_dmap (Inr (replicate 16 7)) 0 (\<lambda>d. []) Map.empty ''k'' nilTimeout 1000
     = Some ([''k'' \<mapsto> replicate 16 7],
             Inr \<lparr>lc_name = ''locks'', lc_key = ''k'', lc_token = replicate 16 7,
                  lc_dm = demo_dmap\<rparr>)
   \<and> LockWithTimeout demo_dmap (Inr (replicate 16 7)) 0 (\<lambda>d. [TimerFired, DeadlineExceeded])
        [''k'' \<mapsto> [1]] ''k'' nilTimeout 1000
     = Some ([''k'' \<mapsto> [1]], Inl ErrLockNotAcquired)"
proof -
  have tok: "copy_at (replicate 16 0) 0 (replicate 16 (7 :: byte)) = replicate 16 7"
    by (simp add: copy_at_def)
  have free: "Lock demo_dmap (Inr (replicate 16 7)) 0 (\<lambda>d. []) Map.empty ''k'' 1000
     = Some ([''k'' \<mapsto> replicate 16 7],
             Inr \<lparr>lc_name = ''locks'', lc_key = ''k'', lc_token = replicate 16 7,
                  lc_dm = demo_dmap\<rparr>)"
    by (simp add: Lock_def lockKey_def Let_def tok prepareAndSerialize_def tryLock_def
        demo_dmap_def nilTimeout_def)
  have held: "Lock demo_dmap (Inr (replicate 16 7)) 0 (\<lambda>d. [TimerFired, DeadlineExceeded])
        [''k'' \<mapsto> [1]] ''k'' 1000
     = Some ([''k'' \<mapsto> [1]], Inl ErrLockNotAcquired)"
    by (simp add: Lock_def lockKey_def Let_def tok prepareAndSerialize_def tryLock_def
        demo_dmap_def nilTimeout_def)
  have eq1: "Lock demo_dmap (Inr (replicate 16 7)) 0 (\<lambda>d. []) Map.empty ''k'' 1000
      = LockWithTimeout demo_dmap (Inr (replicate 16 7)) 0 (\<lambda>d. []) Map.empty ''k'' nilTimeout 1000"
    by (rule Lock_is_LockWithTimeout_nilTimeout [THEN conjunct1])
  have eq2: "Lock demo_dmap (Inr (replicate 16 7)) 0 (\<lambda>d. [TimerFired, DeadlineExceeded])
        [''k'' \<mapsto> [1]] ''k'' 1000
      = LockWithTimeout demo_dmap (Inr (replicate 16 7)) 0 (\<lambda>d. [TimerFired, DeadlineExceeded])
        [''k'' \<mapsto> [1]] ''k'' nilTimeout 1000"
    by (rule Lock_is_LockWithTimeout_nilTimeout [THEN conjunct1])
  show ?thesis
    by (intro conjI) (simp_all only: free held eq1 [symmetric] eq2 [symmetric])
qed

end
